theory Spec2Isabelle
  imports Main "HOL-Library.Word"
begin

unbundle bit_operations_syntax

section \<open>Go library functions used by search\_log.go\<close>

text \<open>
  Go strings are byte sequences; they are modelled as \<open>string\<close> (a list of 8-bit
  characters), so \<open>length\<close> is Go's \<open>len\<close>.
\<close>

abbreviation LF :: char where "LF \<equiv> CHR 0x0A"
abbreviation CR :: char where "CR \<equiv> CHR 0x0D"

text \<open>\<open>strings.Index(s, c)\<close> for a one-byte pattern: the first position of the byte, or -1.\<close>

fun Index :: "string \<Rightarrow> char \<Rightarrow> int" where
  "Index [] c = -1"
| "Index (x # xs) c =
     (if x = c then 0 else (let i = Index xs c in if i = -1 then -1 else i + 1))"

text \<open>The slice expression \<open>s[a:b]\<close>, for \<open>0 \<le> a \<le> b \<le> len(s)\<close>, and \<open>s[a:]\<close>.\<close>

definition slice :: "string \<Rightarrow> int \<Rightarrow> int \<Rightarrow> string" where
  "slice s a b = take (nat (b - a)) (drop (nat a) s)"

definition slice_from :: "string \<Rightarrow> int \<Rightarrow> string" where
  "slice_from s a = drop (nat a) s"

definition HasPrefix :: "string \<Rightarrow> string \<Rightarrow> bool" where
  "HasPrefix s p = (length p \<le> length s \<and> take (length p) s = p)"

definition HasSuffix :: "string \<Rightarrow> string \<Rightarrow> bool" where
  "HasSuffix s p = (length p \<le> length s \<and> drop (length s - length p) s = p)"

text \<open>\<open>strings.ReplaceAll(s, "\r\n", "\n")\<close>: every CR LF pair, left to right, becomes LF.\<close>

fun ReplaceAll_CRLF :: "string \<Rightarrow> string" where
  "ReplaceAll_CRLF (x # y # s) =
     (if x = CR \<and> y = LF then LF # ReplaceAll_CRLF s else x # ReplaceAll_CRLF (y # s))"
| "ReplaceAll_CRLF s = s"

text \<open>\<open>strings.Split(s, "\n")\<close>: the pieces between line feeds; one piece for a string
  without a line feed, the empty string included.\<close>

fun Split_LF :: "string \<Rightarrow> string list" where
  "Split_LF [] = [[]]"
| "Split_LF (x # s) =
     (if x = LF then [] # Split_LF s
      else (case Split_LF s of l # ls \<Rightarrow> (x # l) # ls | [] \<Rightarrow> [[x]]))"

text \<open>
  \<open>filepath.Ext\<close>: the suffix from the last dot of the last path element, empty when
  that element has no dot.
\<close>

fun Ext_rev :: "string \<Rightarrow> string \<Rightarrow> string" where
  "Ext_rev [] acc = []"
| "Ext_rev (c # cs) acc =
     (if c = CHR ''/'' then []
      else if c = CHR ''.'' then c # acc
      else Ext_rev cs (c # acc))"

definition Ext :: "string \<Rightarrow> string" where
  "Ext path = Ext_rev (rev path) []"

text \<open>
  The library functions that are not modelled byte by byte are parameters of the
  model: \<open>time_Parse s\<close> is \<open>t.UnixNano()\<close> for the \<open>t\<close> that
  \<open>time.Parse(TimeStampLayout, s)\<close> returns, or \<open>None\<close> when it returns an error;
  \<open>TrimSpace\<close> is \<open>strings.TrimSpace\<close>. A compiled regular expression is the
  predicate its \<open>MatchString\<close> computes.
\<close>

record golib =
  time_Parse :: "string \<Rightarrow> int option"
  TrimSpace :: "string \<Rightarrow> string"

type_synonym Regexp = "string \<Rightarrow> bool"

section \<open>Errors and cancellation\<close>

datatype error =
    EOF
  | Canceled
  | EmptyLocation
  | ReadDirError
  | OpenError
  | GzipError
  | TimeParseError
  | InvalidLogString
  | NotValidLogFile
  | ErrBufferFull
  | NilResult
  | NilReader
  | IndexOutOfRange
  | NoProgress

text \<open>
  A context is polled, never awaited: \<open>Some n\<close> is a context that answers "not done" to
  \<open>n\<close> more polls and "done" from then on (\<open>Some 0\<close> has been cancelled), \<open>None\<close> one
  that is never cancelled. \<open>isCtxDone\<close> is a poll, \<open>ctx_Err\<close> is \<open>ctx.Err()\<close>: nil
  until the context is cancelled.
\<close>

type_synonym ctx = "nat option"

fun isCtxDone :: "ctx \<Rightarrow> bool \<times> ctx" where
  "isCtxDone None = (False, None)"
| "isCtxDone (Some 0) = (True, Some 0)"
| "isCtxDone (Some (Suc n)) = (False, Some n)"

fun ctx_Err :: "ctx \<Rightarrow> error option" where
  "ctx_Err (Some 0) = Some Canceled"
| "ctx_Err c = None"

section \<open>Timestamp and level codec, log line parser\<close>

text \<open>
  \<open>pb.LogLevel\<close> is the enumeration of the imported package diagnosticspb (kvproto):
  UNKNOWN = 0, Debug = 1, Info = 2, Warn = 3, Trace = 4, Critical = 5, Error = 6.
  \<open>LogLevel_value\<close> is the number of a level, which the source compares and shifts by.
\<close>

datatype LogLevel =
    LogLevel_UNKNOWN
  | LogLevel_Debug
  | LogLevel_Info
  | LogLevel_Warn
  | LogLevel_Trace
  | LogLevel_Critical
  | LogLevel_Error

fun LogLevel_value :: "LogLevel \<Rightarrow> nat" where
  "LogLevel_value LogLevel_UNKNOWN = 0"
| "LogLevel_value LogLevel_Debug = 1"
| "LogLevel_value LogLevel_Info = 2"
| "LogLevel_value LogLevel_Warn = 3"
| "LogLevel_value LogLevel_Trace = 4"
| "LogLevel_value LogLevel_Critical = 5"
| "LogLevel_value LogLevel_Error = 6"

record LogMessage =
  Time :: int
  Level :: LogLevel
  Message :: string

definition ParseLogLevel :: "string \<Rightarrow> LogLevel" where
  "ParseLogLevel s =
     (if s = ''debug'' \<or> s = ''DEBUG'' then LogLevel_Debug
      else if s = ''info'' \<or> s = ''INFO'' then LogLevel_Info
      else if s = ''warn'' \<or> s = ''WARN'' then LogLevel_Warn
      else if s = ''trace'' \<or> s = ''TRACE'' then LogLevel_Trace
      else if s = ''critical'' \<or> s = ''CRITICAL'' then LogLevel_Critical
      else if s = ''error'' \<or> s = ''ERROR'' then LogLevel_Error
      else LogLevel_UNKNOWN)"

definition TimeStampLayout :: string where
  "TimeStampLayout = ''2006/01/02 15:04:05.000 -07:00''"

definition timeStampLayoutLen :: nat where
  "timeStampLayoutLen = length TimeStampLayout"

text \<open>Go's integer division truncates towards zero; \<open>time.Millisecond\<close> is 1000000 ns.\<close>

definition parseTimeStamp :: "golib \<Rightarrow> string \<Rightarrow> error + int" where
  "parseTimeStamp L s =
     (case time_Parse L s of
        None \<Rightarrow> Inl TimeParseError
      | Some ns \<Rightarrow> Inr (if 0 \<le> ns then ns div 1000000 else - ((- ns) div 1000000)))"

definition parseLogItem :: "golib \<Rightarrow> string \<Rightarrow> error + LogMessage" where
  "parseLogItem L s =
     (let timeLeftBound = Index s (CHR ''['');
          timeRightBound = Index s (CHR '']'')
      in if timeLeftBound = -1 \<or> timeRightBound = -1 \<or> timeLeftBound > timeRightBound
         then Inl InvalidLogString
         else (case parseTimeStamp L (slice s (timeLeftBound + 1) timeRightBound) of
                 Inl e \<Rightarrow> Inl e
               | Inr time \<Rightarrow>
                   (let levelLeftBound = Index (slice_from s (timeRightBound + 1)) (CHR ''['');
                        levelRightBound = Index (slice_from s (timeRightBound + 1)) (CHR '']'')
                    in if levelLeftBound = -1 \<or> levelRightBound = -1
                          \<or> levelLeftBound > levelRightBound
                       then Inl InvalidLogString
                       else (let level = ParseLogLevel
                                   (slice s (timeRightBound + 1 + levelLeftBound + 1)
                                            (timeRightBound + 1 + levelRightBound))
                             in Inr \<lparr>Time = time, Level = level,
                                     Message = TrimSpace L
                                       (slice_from s (timeRightBound + levelRightBound + 2))\<rparr>))))"

section \<open>Files and buffered readers\<close>

text \<open>
  An open file: its path, its bytes, the stream \<open>gzip.NewReader\<close> decompresses from it
  (\<open>None\<close> when the header is not gzip's), and the offsets at which a \<open>Seek\<close> or a
  \<open>Read\<close> fails. The file offset itself is not part of the model: every direct read of
  the source follows a \<open>Seek\<close> to an absolute offset, and a buffered reader is created
  on a handle at offset 0 (\<open>resolveFiles\<close> seeks there before it keeps a handle).
\<close>

record osFile =
  f_name :: string
  f_data :: string
  f_gunzip :: "string option"
  f_seek_fails :: "int \<Rightarrow> bool"
  f_read_fails :: "int \<Rightarrow> bool"

definition file_Size :: "osFile \<Rightarrow> int" where
  "file_Size f = int (length (f_data f))"

text \<open>\<open>file.Seek(off, io.SeekStart)\<close>: \<open>True\<close> when it succeeds.\<close>

definition file_Seek :: "osFile \<Rightarrow> int \<Rightarrow> bool" where
  "file_Seek f off = (0 \<le> off \<and> \<not> f_seek_fails f off)"

text \<open>
  \<open>chars := make([]byte, size); _, err = file.Read(chars)\<close> at offset \<open>off\<close>: the buffer
  after the read, \<open>None\<close> for an error. A read at or past the end of the file is the error
  io.EOF; the source ignores the count of bytes read, so a short read leaves zero bytes
  at the end of the buffer.
\<close>

definition file_Read :: "osFile \<Rightarrow> int \<Rightarrow> int \<Rightarrow> string option" where
  "file_Read f off sz =
     (if f_read_fails f off then None
      else if 0 < sz \<and> length (f_data f) \<le> nat off then None
      else (let b = take (nat sz) (drop (nat off) (f_data f))
            in Some (b @ replicate (nat sz - length b) (CHR 0x00))))"

text \<open>
  A \<open>bufio.Reader\<close> is the bytes it has not delivered yet. \<open>ReadSlice_LF\<close> is
  \<open>ReadSlice('\n')\<close> with the default buffer of 4096 bytes: up to and including the
  first line feed among the next 4096 bytes; else a full buffer with ErrBufferFull; else
  whatever is left with io.EOF. The result is (bytes, error, reader afterwards).
\<close>

definition defaultBufSize :: nat where
  "defaultBufSize = 4096"

definition ReadSlice_LF :: "string \<Rightarrow> string \<times> error option \<times> string" where
  "ReadSlice_LF r =
     (let window = take defaultBufSize r
      in if LF \<in> set window
         then (let n = Suc (length (takeWhile (\<lambda>c. c \<noteq> LF) window))
               in (take n r, None, drop n r))
         else if defaultBufSize \<le> length r
         then (window, Some ErrBufferFull, drop defaultBufSize r)
         else (r, Some EOF, []))"

text \<open>\<open>bufio.Reader.ReadLine\<close>: (line, isPrefix, err, reader afterwards).\<close>

definition ReadLine :: "string \<Rightarrow> string \<times> bool \<times> error option \<times> string" where
  "ReadLine r =
     (case ReadSlice_LF r of (line, err, rest) \<Rightarrow>
        if err = Some ErrBufferFull
        then (if line \<noteq> [] \<and> last line = CR
              then (butlast line, True, None, CR # rest)
              else (line, True, None, rest))
        else if line = [] then ([], False, err, rest)
        else if last line = LF
        then (let dropn = (if 1 < length line \<and> line ! (length line - 2) = CR then 2 else 1)
              in (take (length line - dropn) line, False, None, rest))
        else (line, False, None, rest))"

lemma ReadLine_prefix_shorter:
  "ReadLine r = (b, True, err, r') \<Longrightarrow> length r' < length r"
  by (auto simp: ReadLine_def ReadSlice_LF_def defaultBufSize_def Let_def
      split: if_splits)

text \<open>\<open>readLine\<close> of the source: the pieces of one line, joined.\<close>

function readLine_loop :: "string \<Rightarrow> string \<Rightarrow> (error + string) \<times> string" where
  "readLine_loop line r =
     (case ReadLine r of (b, isPrefix, err, r') \<Rightarrow>
        (case err of
           Some e \<Rightarrow> (Inl e, r')
         | None \<Rightarrow> if isPrefix then readLine_loop (line @ b) r' else (Inr (line @ b), r')))"
  by pat_completeness auto
termination
  by (relation "measure (\<lambda>(line, r). length r)") (auto dest: ReadLine_prefix_shorter [OF sym])

declare readLine_loop.simps [simp del]

definition readLine :: "string \<Rightarrow> (error + string) \<times> string" where
  "readLine r = readLine_loop [] r"

section \<open>Backward chunk scanner\<close>

definition maxReadCacheSize :: int where
  "maxReadCacheSize = 1024 * 1024 * 16"

text \<open>
  The inner loop of \<open>readLastLines\<close> over the chunk just read: \<open>findBoundary cs n i\<close>
  scans \<open>chars[i:]\<close> = \<open>cs\<close> with \<open>n = len(lines)\<close> and returns the new value of
  \<open>firstNonNewlinePos\<close> (bytes 10 and 13 are LF and CR); 0 when it finds no boundary.
\<close>

fun findBoundary :: "string \<Rightarrow> nat \<Rightarrow> nat \<Rightarrow> nat" where
  "findBoundary (a # b # cs) n i =
     (if n \<le> i + 1 then 0
      else if (a = LF \<or> a = CR) \<and> b \<noteq> LF \<and> b \<noteq> CR then i + 1
      else findBoundary (b # cs) n (i + 1))"
| "findBoundary cs n i = 0"

text \<open>
  The outer loop. Its state is \<open>lines\<close>, \<open>cursor\<close> and \<open>size\<close> (\<open>sz\<close>);
  \<open>firstNonNewlinePos\<close> is 0 at the start of every round, since a round that sets it
  leaves the loop. \<open>tr\<close> records the reads issued, (offset, size) each, oldest first.
  The loop ends with \<open>Inr (lines, firstNonNewlinePos)\<close> at a \<open>break\<close> and with
  \<open>Inl err\<close> at a \<open>return nil, 0, err\<close>. The first test is not in the source: \<open>size\<close>
  is 256 at the start and never below 1, and the test makes the recursion well-founded
  for every argument.
\<close>

function readLastLines_loop ::
  "osFile \<Rightarrow> ctx \<Rightarrow> string \<Rightarrow> int \<Rightarrow> int \<Rightarrow> (int \<times> int) list
     \<Rightarrow> ctx \<times> (error option + string \<times> nat) \<times> (int \<times> int) list" where
  "readLastLines_loop file c lines cursor sz tr =
     (if sz \<le> 0 then (c, Inl (Some NoProgress), tr)
      else if cursor \<le> 0 then (c, Inr (lines, 0), tr)
      else
        (let sz1 = sz * 2;
             sz2 = (if sz1 > maxReadCacheSize then maxReadCacheSize else sz1);
             sz3 = (if cursor < sz2 then cursor else sz2);
             cursor' = cursor - sz3
         in if \<not> file_Seek file cursor' then (c, Inl (ctx_Err c), tr)
            else (case file_Read file cursor' sz3 of
                    None \<Rightarrow> (c, Inl (ctx_Err c), tr @ [(cursor', sz3)])
                  | Some chars \<Rightarrow>
                      (let lines' = chars @ lines;
                           firstNonNewlinePos = findBoundary chars (length lines') 0;
                           tr' = tr @ [(cursor', sz3)]
                       in if firstNonNewlinePos > 0 then (c, Inr (lines', firstNonNewlinePos), tr')
                          else (case isCtxDone c of
                                  (True, c') \<Rightarrow> (c', Inl (ctx_Err c'), tr')
                                | (False, c') \<Rightarrow>
                                    readLastLines_loop file c' lines' cursor' sz3 tr')))))"
  by pat_completeness auto
termination
  by (relation "measure (\<lambda>(file, c, lines, cursor, sz, tr). nat cursor)")
     (auto simp: maxReadCacheSize_def split: if_splits)

declare readLastLines_loop.simps [simp del]

text \<open>\<open>readLastLines\<close>: the context afterwards, and the three results of the source.\<close>

definition readLastLines ::
  "ctx \<Rightarrow> osFile \<Rightarrow> int \<Rightarrow> ctx \<times> string list \<times> int \<times> error option" where
  "readLastLines c file endCursor =
     (case readLastLines_loop file c [] endCursor 256 [] of
        (c', Inl err, tr) \<Rightarrow> (c', [], 0, err)
      | (c', Inr (lines, firstNonNewlinePos), tr) \<Rightarrow>
          (let finalStr = drop firstNonNewlinePos lines
           in (c', Split_LF (ReplaceAll_CRLF finalStr), int (length finalStr), None)))"

text \<open>The reads one call of \<open>readLastLines\<close> issues: (offset, chunk size), in order.\<close>

definition readLastLines_reads :: "ctx \<Rightarrow> osFile \<Rightarrow> int \<Rightarrow> (int \<times> int) list" where
  "readLastLines_reads c file endCursor =
     snd (snd (readLastLines_loop file c [] endCursor 256 []))"

section \<open>First and last valid entry of a file\<close>

text \<open>
  A function of the source that returns \<open>(nil, err)\<close> returns \<open>Inl err\<close> here;
  \<open>ret_Err\<close> is \<open>return nil, ctx.Err()\<close>, where a nil \<open>ctx.Err()\<close> would hand the
  caller two nils.
\<close>

definition ret_Err :: "error option \<Rightarrow> error + 'a" where
  "ret_Err e = (case e of Some err \<Rightarrow> Inl err | None \<Rightarrow> Inl NilResult)"

function readFirstValidLog_loop ::
  "golib \<Rightarrow> ctx \<Rightarrow> string \<Rightarrow> int \<Rightarrow> int \<Rightarrow> ctx \<times> (error + LogMessage)" where
  "readFirstValidLog_loop L c reader tryLines tried =
     (case readLine reader of
        (Inl err, reader') \<Rightarrow> (c, Inl err)
      | (Inr line, reader') \<Rightarrow>
          (case parseLogItem L line of
             Inr item \<Rightarrow> (c, Inr item)
           | Inl _ \<Rightarrow>
               (let tried' = tried + 1
                in if tried' \<ge> tryLines then (c, Inl NotValidLogFile)
                   else (case isCtxDone c of
                           (True, c') \<Rightarrow> (c', ret_Err (ctx_Err c'))
                         | (False, c') \<Rightarrow>
                             readFirstValidLog_loop L c' reader' tryLines tried'))))"
  by pat_completeness auto
termination
  by (relation "measure (\<lambda>(L, c, reader, tryLines, tried). nat (tryLines - tried))") auto

declare readFirstValidLog_loop.simps [simp del]

definition readFirstValidLog ::
  "golib \<Rightarrow> ctx \<Rightarrow> string \<Rightarrow> int \<Rightarrow> ctx \<times> (error + LogMessage)" where
  "readFirstValidLog L c reader tryLines = readFirstValidLog_loop L c reader tryLines 0"

text \<open>
  The inner loop of \<open>readLastValidLog\<close>, from the last line to the first: the first
  line of the list that parses.
\<close>

fun firstParsed :: "golib \<Rightarrow> string list \<Rightarrow> LogMessage option" where
  "firstParsed L [] = None"
| "firstParsed L (l # ls) =
     (case parseLogItem L l of Inr item \<Rightarrow> Some item | Inl _ \<Rightarrow> firstParsed L ls)"

lemma Split_LF_not_Nil: "Split_LF s \<noteq> []"
  by (induction s) (auto split: list.splits)

lemma readLastLines_lines_not_Nil:
  "readLastLines c file endCursor = (c', lines, n, err) \<Longrightarrow> n \<noteq> 0 \<Longrightarrow> lines \<noteq> []"
  by (auto simp: readLastLines_def Let_def Split_LF_not_Nil split: prod.splits sum.splits)

function readLastValidLog_loop ::
  "golib \<Rightarrow> ctx \<Rightarrow> osFile \<Rightarrow> int \<Rightarrow> int \<Rightarrow> int \<Rightarrow> ctx \<times> (error + LogMessage)" where
  "readLastValidLog_loop L c file tryLines tried endCursor =
     (case readLastLines c file endCursor of
        (c', lines, readBytes, err) \<Rightarrow>
          (case err of
             Some e \<Rightarrow> (c', Inl e)
           | None \<Rightarrow>
               if readBytes = 0 then (c', Inl NotValidLogFile)
               else (case firstParsed L (rev lines) of
                       Some item \<Rightarrow> (c', Inr item)
                     | None \<Rightarrow>
                         (let tried' = tried + int (length lines)
                          in if tried' \<ge> tryLines then (c', Inl NotValidLogFile)
                             else readLastValidLog_loop L c' file tryLines tried'
                                    (endCursor - readBytes)))))"
  by pat_completeness auto
termination
  by (relation "measure (\<lambda>(L, c, file, tryLines, tried, endCursor). nat (tryLines - tried))")
     (auto dest: readLastLines_lines_not_Nil [OF sym])

declare readLastValidLog_loop.simps [simp del]

text \<open>\<open>stat.Size()\<close> is the length of the file; \<open>file.Stat\<close> is taken to succeed.\<close>

definition readLastValidLog ::
  "golib \<Rightarrow> ctx \<Rightarrow> osFile \<Rightarrow> int \<Rightarrow> ctx \<times> (error + LogMessage)" where
  "readLastValidLog L c file tryLines = readLastValidLog_loop L c file tryLines 0 (file_Size file)"

section \<open>File resolver\<close>

record logFile =
  lf_file :: osFile
  lf_begin :: int
  lf_end :: int
  lf_compressed :: bool

definition compressSuffix :: string where
  "compressSuffix = ''.gz''"

definition MaxInt64 :: int where
  "MaxInt64 = 9223372036854775807"

text \<open>
  One entry of the directory that \<open>os.ReadDir(logDir)\<close> lists: \<open>de_path\<close> is
  \<open>filepath.Join(logDir, file.Name())\<close>, \<open>de_open\<close> the handle that \<open>os.OpenFile\<close>
  returns for that path, \<open>None\<close> when it fails.
\<close>

record dirEntry =
  de_path :: string
  de_isDir :: bool
  de_open :: "osFile option"

text \<open>
  \<open>probeFile\<close> is \<open>walkFn\<close> from its first line to the reset of the file position
  (lines 66 to 131): what becomes of a directory entry before its span is compared with
  the query window. \<open>Ignored\<close> is a \<open>return nil\<close> that keeps no handle, \<open>Failed\<close> the
  \<open>return ctx.Err()\<close>, \<open>Skipped\<close> a handle put on \<open>skipFiles\<close>, \<open>Probed\<close> a file with
  its first and last time. \<open>err\<close> is the variable \<open>err\<close> of \<open>resolveFiles\<close>, which the
  closure assigns at \<open>os.OpenFile\<close>; the other \<open>err\<close> of \<open>walkFn\<close> are its own.
\<close>

datatype probe = Ignored | Failed "error option" | Skipped osFile | Probed logFile

text \<open>Lines 115 to 126: the time of the last entry, \<open>None\<close> when the file is to be
  skipped.\<close>

definition probeEnd :: "golib \<Rightarrow> ctx \<Rightarrow> osFile \<Rightarrow> bool \<Rightarrow> ctx \<times> int option" where
  "probeEnd L c file compressed =
     (if \<not> compressed
      then (case readLastValidLog L c file 10 of
              (c', Inl e) \<Rightarrow> (c', None)
            | (c', Inr lastItem) \<Rightarrow> (c', Some (Time lastItem)))
      else (c, Some MaxInt64))"

definition probeFile ::
  "golib \<Rightarrow> string \<Rightarrow> string \<Rightarrow> ctx \<Rightarrow> error option \<Rightarrow> dirEntry
     \<Rightarrow> ctx \<times> error option \<times> probe" where
  "probeFile L filePrefix ext c err info =
     (if de_isDir info then (c, err, Ignored)
      else if \<not> HasPrefix (de_path info) filePrefix then (c, err, Ignored)
      else
        (let compressed = HasSuffix (de_path info) compressSuffix;
             path = (if compressed
                     then take (length (de_path info) - length compressSuffix) (de_path info)
                     else de_path info)
         in if \<not> HasSuffix path ext then (c, err, Ignored)
            else
              (case isCtxDone c of
                 (True, c') \<Rightarrow> (c', err, Failed (ctx_Err c'))
               | (False, c') \<Rightarrow>
                   (case de_open info of
                      None \<Rightarrow> (c', Some OpenError, Ignored)
                    | Some file \<Rightarrow>
                        (case (if \<not> compressed then Some (f_data file) else f_gunzip file) of
                           None \<Rightarrow> (c', None, Ignored)
                         | Some reader \<Rightarrow>
                             (case readFirstValidLog L c' reader 10 of
                                (c1, Inl e) \<Rightarrow> (c1, None, Skipped file)
                              | (c1, Inr firstItem) \<Rightarrow>
                                  (case probeEnd L c1 file compressed of
                                     (c2, None) \<Rightarrow> (c2, None, Skipped file)
                                   | (c2, Some lastItemTime) \<Rightarrow>
                                       if \<not> file_Seek file 0 then (c2, None, Skipped file)
                                       else (c2, None,
                                             Probed \<lparr>lf_file = file,
                                                     lf_begin = Time firstItem,
                                                     lf_end = lastItemTime,
                                                     lf_compressed = compressed\<rparr>))))))))"

text \<open>The variables that \<open>walkFn\<close> shares with \<open>resolveFiles\<close>.\<close>

record walkState =
  ws_logFiles :: "logFile list"
  ws_skipFiles :: "osFile list"
  ws_err :: "error option"

text \<open>\<open>walkFn\<close>: the state afterwards and the error it returns (lines 133 to 143 decide
  on a probed file).\<close>

definition walkFn ::
  "golib \<Rightarrow> string \<Rightarrow> string \<Rightarrow> int \<Rightarrow> int \<Rightarrow> ctx \<Rightarrow> walkState \<Rightarrow> dirEntry
     \<Rightarrow> ctx \<times> walkState \<times> error option" where
  "walkFn L filePrefix ext beginTime endTime c st info =
     (case probeFile L filePrefix ext c (ws_err st) info of
        (c', e, Ignored) \<Rightarrow> (c', st\<lparr>ws_err := e\<rparr>, None)
      | (c', e, Failed r) \<Rightarrow> (c', st\<lparr>ws_err := e\<rparr>, r)
      | (c', e, Skipped f) \<Rightarrow>
          (c', st\<lparr>ws_err := e, ws_skipFiles := ws_skipFiles st @ [f]\<rparr>, None)
      | (c', e, Probed lf) \<Rightarrow>
          if beginTime > lf_end lf \<or> endTime < lf_begin lf
          then (c', st\<lparr>ws_err := e, ws_skipFiles := ws_skipFiles st @ [lf_file lf]\<rparr>, None)
          else (c', st\<lparr>ws_err := e, ws_logFiles := ws_logFiles st @ [lf]\<rparr>, None))"

text \<open>The loop over the directory entries (lines 145 to 150).\<close>

fun walk ::
  "golib \<Rightarrow> string \<Rightarrow> string \<Rightarrow> int \<Rightarrow> int \<Rightarrow> ctx \<Rightarrow> walkState \<Rightarrow> dirEntry list
     \<Rightarrow> ctx \<times> walkState \<times> error option" where
  "walk L filePrefix ext beginTime endTime c st [] = (c, st, None)"
| "walk L filePrefix ext beginTime endTime c st (info # infos) =
     (case walkFn L filePrefix ext beginTime endTime c st info of
        (c', st', Some e) \<Rightarrow> (c', st', Some e)
      | (c', st', None) \<Rightarrow> walk L filePrefix ext beginTime endTime c' st' infos)"

text \<open>The pruning loop (lines 165 to 176), from index \<open>i\<close> on: the final \<open>idx\<close> and
  \<open>skipFiles\<close>.\<close>

function prune_loop ::
  "int \<Rightarrow> logFile list \<Rightarrow> nat \<Rightarrow> nat \<Rightarrow> osFile list \<Rightarrow> nat \<times> osFile list" where
  "prune_loop beginTime logFiles i idx skipFiles =
     (if length logFiles \<le> i then (idx, skipFiles)
      else if i = 0 then prune_loop beginTime logFiles (i + 1) idx skipFiles
      else if lf_begin (logFiles ! i) < beginTime
      then prune_loop beginTime logFiles (i + 1) i (skipFiles @ [lf_file (logFiles ! (i - 1))])
      else (idx, skipFiles))"
  by pat_completeness auto
termination
  by (relation "measure (\<lambda>(beginTime, logFiles, i, idx, skipFiles). length logFiles - i)") auto

declare prune_loop.simps [simp del]

text \<open>
  \<open>resolveFiles\<close>. \<open>readDir\<close> is the result of \<open>os.ReadDir(logDir)\<close>. The results are the
  context afterwards, the handles that the deferred function closes, and the two results
  of the source. \<open>sort.Slice\<close> is not stable; \<open>sort_key\<close> is one of the orders it may
  produce, the only one when the begin times differ.
\<close>

definition resolveFiles ::
  "golib \<Rightarrow> ctx \<Rightarrow> error + dirEntry list \<Rightarrow> string \<Rightarrow> int \<Rightarrow> int
     \<Rightarrow> ctx \<times> osFile list \<times> logFile list \<times> error option" where
  "resolveFiles L c readDir logFilePath beginTime endTime =
     (if logFilePath = [] then (c, [], [], Some EmptyLocation)
      else
        (let ext = Ext logFilePath;
             filePrefix = take (length logFilePath - length ext) logFilePath
         in case readDir of
              Inl e \<Rightarrow> (c, [], [], Some e)
            | Inr files \<Rightarrow>
                (case walk L filePrefix ext beginTime endTime c
                        \<lparr>ws_logFiles = [], ws_skipFiles = [], ws_err = None\<rparr> files of
                   (c', st, Some e) \<Rightarrow> (c', [], [], Some e)
                 | (c', st, None) \<Rightarrow>
                     (let logFiles = sort_key lf_begin (ws_logFiles st)
                      in case prune_loop beginTime logFiles 0 0 (ws_skipFiles st) of
                           (idx, skipFiles) \<Rightarrow>
                             (c', skipFiles, drop idx logFiles, ws_err st)))))"

section \<open>Log iterator\<close>

text \<open>
  \<open>reader\<close> is \<open>None\<close> for nil. \<open>levelFlag\<close> is an int64, \<open>fileIndex\<close> an int that is
  never negative.
\<close>

record logIterator =
  it_begin :: int
  it_end :: int
  levelFlag :: "64 word"
  patterns :: "Regexp list"
  fileIndex :: nat
  reader :: "string option"
  pending :: "logFile list"
  preLog :: "LogMessage option"

text \<open>\<open>close\<close>: the handles it closes.\<close>

definition logIterator_close :: "logIterator \<Rightarrow> osFile list" where
  "logIterator_close iter = map lf_file (pending iter)"

definition updateToNextReader :: "logIterator \<Rightarrow> error + logIterator" where
  "updateToNextReader iter =
     (if length (pending iter) \<le> fileIndex iter then Inl IndexOutOfRange
      else if \<not> lf_compressed (pending iter ! fileIndex iter)
      then Inr (iter\<lparr>reader := Some (f_data (lf_file (pending iter ! fileIndex iter)))\<rparr>)
      else (case f_gunzip (lf_file (pending iter ! fileIndex iter)) of
              None \<Rightarrow> Inl GzipError
            | Some gr \<Rightarrow> Inr (iter\<lparr>reader := Some gr\<rparr>)))"

text \<open>
  The filters of \<open>next\<close> (lines 468 to 486) on an entry: \<open>Some\<close> of what \<open>next\<close>
  returns, or \<open>None\<close> for \<open>continue\<close>. \<open>1 << item.Level\<close> is an int64.
\<close>

definition filterItem :: "logIterator \<Rightarrow> LogMessage \<Rightarrow> (error + LogMessage) option" where
  "filterItem iter item =
     (if Time item > it_end iter then Some (Inl EOF)
      else if Time item < it_begin iter then None
      else if LogLevel_value (Level item) > LogLevel_value LogLevel_UNKNOWN
              \<and> levelFlag iter \<noteq> 0
              \<and> levelFlag iter AND push_bit (LogLevel_value (Level item)) 1 = 0
      then None
      else if \<not> list_all (\<lambda>p. p (Message item)) (patterns iter) then None
      else Some (Inr item))"

text \<open>
  Lines 449 to 467 of \<open>next\<close> on the line just read: \<open>None\<close> for \<open>continue\<close>, or the
  iterator afterwards and the entry that goes on to the filters (the parsed entry, which
  becomes \<open>preLog\<close>, or the entry made from \<open>preLog\<close> and the line).
\<close>

definition decodeLine :: "golib \<Rightarrow> logIterator \<Rightarrow> string \<Rightarrow> (logIterator \<times> LogMessage) option" where
  "decodeLine L iter raw =
     (let line = TrimSpace L raw
      in if preLog iter = None \<and> length line < timeStampLayoutLen then None
         else (case parseLogItem L line of
                 Inl e \<Rightarrow>
                   (case preLog iter of
                      None \<Rightarrow> None
                    | Some pre \<Rightarrow>
                        Some (iter, \<lparr>Time = Time pre, Level = Level pre, Message = line\<rparr>))
               | Inr item \<Rightarrow> Some (iter\<lparr>preLog := Some item\<rparr>, item)))"

text \<open>
  One round of the loop of \<open>next\<close> (lines 434 to 486): the context and the iterator
  afterwards, and \<open>Some\<close> of what \<open>next\<close> returns or \<open>None\<close> for \<open>continue\<close>. A read
  error other than io.EOF leaves \<open>line\<close> empty, as in the source.
\<close>

definition next_round ::
  "golib \<Rightarrow> ctx \<Rightarrow> logIterator \<Rightarrow> ctx \<times> logIterator \<times> (error + LogMessage) option" where
  "next_round L c iter =
     (case isCtxDone c of
        (True, c') \<Rightarrow> (c', iter, Some (ret_Err (ctx_Err c')))
      | (False, c') \<Rightarrow>
          (case reader iter of
             None \<Rightarrow> (c', iter, Some (Inl NilReader))
           | Some r \<Rightarrow>
               (case readLine r of
                  (res, r') \<Rightarrow>
                    (let iter1 = iter\<lparr>reader := Some r'\<rparr>
                     in if res = Inl EOF
                        then (let iter2 = iter1\<lparr>fileIndex := fileIndex iter1 + 1\<rparr>
                              in if fileIndex iter2 \<ge> length (pending iter2)
                                 then (c', iter2, Some (Inl EOF))
                                 else (case updateToNextReader iter2 of
                                         Inl e \<Rightarrow> (c', iter2, Some (Inl e))
                                       | Inr iter3 \<Rightarrow> (c', iter3, None)))
                        else (case decodeLine L iter1 (case res of Inr l \<Rightarrow> l | Inl e \<Rightarrow> []) of
                                None \<Rightarrow> (c', iter1, None)
                              | Some (iter2, item) \<Rightarrow> (c', iter2, filterItem iter2 item))))))"

lemma ReadLine_cases:
  "ReadLine r = (b, isPrefix, err, r') \<Longrightarrow>
     (err = None \<and> length r' < length r) \<or> (err = Some EOF \<and> r = [] \<and> r' = [] \<and> b = [])"
  by (auto simp: ReadLine_def ReadSlice_LF_def defaultBufSize_def Let_def
      split: if_splits)

lemma readLine_loop_cases:
  "readLine_loop line r = (res, r') \<Longrightarrow>
     (res = Inl EOF \<and> r' = []) \<or> (\<exists>l. res = Inr l \<and> length r' < length r)"
proof (induction line r arbitrary: res r' rule: readLine_loop.induct)
  case (1 line r)
  obtain b isPrefix err r1 where rl: "ReadLine r = (b, isPrefix, err, r1)"
    by (cases "ReadLine r") auto
  from ReadLine_cases [OF rl] show ?case
  proof
    assume a: "err = None \<and> length r1 < length r"
    show ?thesis
    proof (cases isPrefix)
      case True
      with a rl "1.prems" have "readLine_loop (line @ b) r1 = (res, r')"
        by (simp add: readLine_loop.simps [of line r])
      from "1.IH" [OF rl [symmetric] refl refl _ _ this] a True
      show ?thesis by auto
    next
      case False
      with a rl "1.prems" show ?thesis
        by (auto simp: readLine_loop.simps [of line r])
    qed
  next
    assume "err = Some EOF \<and> r = [] \<and> r1 = [] \<and> b = []"
    with rl "1.prems" show ?thesis
      by (auto simp: readLine_loop.simps [of line "[]"])
  qed
qed

lemma readLine_cases:
  "readLine r = (res, r') \<Longrightarrow>
     (res = Inl EOF \<and> r' = []) \<or> (\<exists>l. res = Inr l \<and> length r' < length r)"
  unfolding readLine_def by (rule readLine_loop_cases)

text \<open>What is left to read: the files after the current one, and the bytes of the reader.\<close>

definition left_to_read :: "logIterator \<Rightarrow> nat \<times> nat" where
  "left_to_read iter =
     (length (pending iter) - fileIndex iter,
      (case reader iter of None \<Rightarrow> 0 | Some r \<Rightarrow> length r))"

lemma next_round_continue:
  assumes "next_round L c iter = (c', iter', None)"
  shows "(left_to_read iter', left_to_read iter) \<in> less_than <*lex*> less_than"
proof -
  from assms obtain c1 where c1: "isCtxDone c = (False, c1)"
    by (cases "isCtxDone c") (auto simp: next_round_def split: bool.splits)
  from assms c1 obtain r where r: "reader iter = Some r"
    by (cases "reader iter") (auto simp: next_round_def)
  obtain res r' where rl: "readLine r = (res, r')"
    by (cases "readLine r") auto
  from readLine_cases [OF rl] show ?thesis
  proof
    assume "res = Inl EOF \<and> r' = []"
    with assms c1 r rl show ?thesis
      by (auto simp: next_round_def Let_def left_to_read_def updateToNextReader_def
          split: if_splits sum.splits option.splits)
  next
    assume "\<exists>l. res = Inr l \<and> length r' < length r"
    with assms c1 r rl show ?thesis
      by (auto simp: next_round_def Let_def left_to_read_def decodeLine_def
          split: if_splits sum.splits option.splits)
  qed
qed

text \<open>The loop of \<open>next\<close>, and \<open>next\<close>: the context and the iterator afterwards, and the
  entry or the error returned.\<close>

function next_loop ::
  "golib \<Rightarrow> ctx \<Rightarrow> logIterator \<Rightarrow> ctx \<times> logIterator \<times> (error + LogMessage)" where
  "next_loop L c iter =
     (case next_round L c iter of
        (c', iter', None) \<Rightarrow> next_loop L c' iter'
      | (c', iter', Some res) \<Rightarrow> (c', iter', res))"
  by pat_completeness auto
termination
  by (relation "inv_image (less_than <*lex*> less_than) (\<lambda>(L, c, iter). left_to_read iter)")
     (auto dest: next_round_continue [OF sym])

declare next_loop.simps [simp del]

definition logIterator_next ::
  "golib \<Rightarrow> ctx \<Rightarrow> logIterator \<Rightarrow> ctx \<times> logIterator \<times> (error + LogMessage)" where
  "logIterator_next L c iter =
     (if reader iter = None
      then (if length (pending iter) = 0 then (c, iter, Inl EOF)
            else (case updateToNextReader iter of
                    Inl e \<Rightarrow> (c, iter, Inl e)
                  | Inr iter' \<Rightarrow> next_loop L c iter'))
      else next_loop L c iter)"

section \<open>Reading a file forward\<close>

text \<open>The lines that \<open>readLine\<close> delivers from a reader, call after call, up to its
  first error.\<close>

function forwardLines :: "string \<Rightarrow> string list" where
  "forwardLines r =
     (case readLine r of
        (Inl e, r') \<Rightarrow> []
      | (Inr line, r') \<Rightarrow> line # forwardLines r')"
  by pat_completeness auto
termination
  by (relation "measure length") (auto dest: readLine_cases [OF sym])

declare forwardLines.simps [simp del]

text \<open>A line without the carriage return that ends it.\<close>

definition chopCR :: "string \<Rightarrow> string" where
  "chopCR l = (if l \<noteq> [] \<and> last l = CR then butlast l else l)"

lemma takeWhile_take_LF:
  "LF \<in> set (take n r) \<Longrightarrow> takeWhile (\<lambda>c. c \<noteq> LF) (take n r) = takeWhile (\<lambda>c. c \<noteq> LF) r"
proof (induction r arbitrary: n)
  case Nil
  then show ?case by simp
next
  case (Cons a r)
  then show ?case by (cases n) auto
qed

lemma ReadSlice_LF_found:
  assumes "LF \<in> set (take defaultBufSize r)"
  shows "ReadSlice_LF r =
     (takeWhile (\<lambda>c. c \<noteq> LF) r @ [LF], None, tl (dropWhile (\<lambda>c. c \<noteq> LF) r))"
proof -
  from assms have "LF \<in> set r"
    by (auto dest: in_set_takeD)
  then obtain p q where r: "r = p @ LF # q" "LF \<notin> set p"
    by (auto dest: split_list_first)
  then have "\<forall>x\<in>set p. x \<noteq> LF"
    by auto
  with r have tw: "takeWhile (\<lambda>c. c \<noteq> LF) r = p" "dropWhile (\<lambda>c. c \<noteq> LF) r = LF # q"
    by simp_all
  have n: "Suc (length (takeWhile (\<lambda>c. c \<noteq> LF) (take defaultBufSize r))) = Suc (length p)"
    using takeWhile_take_LF [OF assms] tw by simp
  have "take (Suc (length p)) r = p @ [LF]" "drop (Suc (length p)) r = q"
    using r by simp_all
  with assms n tw show ?thesis
    by (simp add: ReadSlice_LF_def Let_def)
qed

text \<open>\<open>readLine\<close> where the line fits the buffer: up to the line feed, without it and
  without a carriage return before it; at the end of the stream, what is left.\<close>

lemma readLine_simple:
  assumes "LF \<in> set (take defaultBufSize r) \<or> length r < defaultBufSize"
  shows "readLine r =
     (if r = [] then (Inl EOF, [])
      else if LF \<in> set r
      then (Inr (chopCR (takeWhile (\<lambda>c. c \<noteq> LF) r)), tl (dropWhile (\<lambda>c. c \<noteq> LF) r))
      else (Inr r, []))"
proof (cases "LF \<in> set (take defaultBufSize r)")
  case True
  then have "LF \<in> set r" "r \<noteq> []"
    by (auto dest: in_set_takeD)
  with ReadSlice_LF_found [OF True] show ?thesis
    by (auto simp: readLine_def readLine_loop.simps [of "[]" r] ReadLine_def chopCR_def
        nth_append butlast_append last_conv_nth butlast_conv_take)
next
  case False
  with assms have len: "length r < defaultBufSize"
    by simp
  then have "take defaultBufSize r = r"
    by simp
  with False have nolf: "LF \<notin> set r"
    by simp
  then have "r \<noteq> [] \<Longrightarrow> last r \<noteq> LF"
    by (metis last_in_set)
  with len nolf show ?thesis
    by (auto simp: readLine_def readLine_loop.simps [of "[]" r] ReadLine_def ReadSlice_LF_def
        Let_def)
qed

section \<open>An example: one log file of three lines\<close>

text \<open>
  A library that parses two timestamps and trims ASCII white space, the three lines of
  a log file whose second line continues the first entry, and an iterator on that file
  whose window holds both entries.
\<close>

definition ascii_space :: "char \<Rightarrow> bool" where
  "ascii_space ch =
     (ch = CHR '' '' \<or> ch = CHR 0x09 \<or> ch = LF \<or> ch = CHR 0x0B \<or> ch = CHR 0x0C \<or> ch = CR)"

definition sample_lib :: golib where
  "sample_lib =
     \<lparr>time_Parse =
        (\<lambda>s. if s = ''2019/08/26 06:19:13.011 -04:00'' then Some 1566814753011000000
              else if s = ''2019/08/26 06:19:14.000 -04:00'' then Some 1566814754000000000
              else None),
      TrimSpace = (\<lambda>s. rev (dropWhile ascii_space (rev (dropWhile ascii_space s))))\<rparr>"

definition line1 :: string where
  "line1 = ''[2019/08/26 06:19:13.011 -04:00] [INFO] [x.go:1] [hello]''"

definition line2 :: string where
  "line2 = ''stack trace continuation''"

definition line3 :: string where
  "line3 = ''[2019/08/26 06:19:14.000 -04:00] [WARN] [x.go:2] [bye]''"

definition entry1 :: LogMessage where
  "entry1 = \<lparr>Time = 1566814753011, Level = LogLevel_Info, Message = ''[x.go:1] [hello]''\<rparr>"


definition entry3 :: LogMessage where
  "entry3 = \<lparr>Time = 1566814754000, Level = LogLevel_Warn, Message = ''[x.go:2] [bye]''\<rparr>"

definition sample_rest2 :: string where
  "sample_rest2 = line3 @ [LF]"

definition sample_rest1 :: string where
  "sample_rest1 = line2 @ LF # sample_rest2"

definition sample_data :: string where
  "sample_data = line1 @ LF # sample_rest1"

definition sample_file :: osFile where
  "sample_file =
     \<lparr>f_name = ''/log/tidb.log'', f_data = sample_data, f_gunzip = None,
      f_seek_fails = (\<lambda>off. False), f_read_fails = (\<lambda>off. False)\<rparr>"

definition sample_iter :: logIterator where
  "sample_iter =
     \<lparr>it_begin = 1566814753011, it_end = 1566814754000, levelFlag = 0, patterns = [],
      fileIndex = 0, reader = None,
      pending = [\<lparr>lf_file = sample_file, lf_begin = 1566814753011, lf_end = 1566814754000,
                  lf_compressed = False\<rparr>],
      preLog = None\<rparr>"

lemma timeStampLayoutLen_30: "timeStampLayoutLen = 30"
  by (simp add: timeStampLayoutLen_def TimeStampLayout_def)

lemma sample_lengths: "length line1 = 56" "length line2 = 24" "length line3 = 54"
  by (simp_all add: line1_def line2_def line3_def)

lemma sample_parse1: "parseLogItem sample_lib line1 = Inr entry1"
  by (simp add: parseLogItem_def sample_lib_def line1_def entry1_def parseTimeStamp_def
      slice_def slice_from_def ParseLogLevel_def ascii_space_def Let_def)

lemma sample_parse2: "parseLogItem sample_lib line2 = Inl InvalidLogString"
  by (simp add: parseLogItem_def sample_lib_def line2_def)

lemma sample_parse3: "parseLogItem sample_lib line3 = Inr entry3"
  by (simp add: parseLogItem_def sample_lib_def line3_def entry3_def parseTimeStamp_def
      slice_def slice_from_def ParseLogLevel_def ascii_space_def Let_def)

lemma sample_trim:
  "TrimSpace sample_lib line1 = line1" "TrimSpace sample_lib line2 = line2"
  "TrimSpace sample_lib line3 = line3"
  by (simp_all add: sample_lib_def line1_def line2_def line3_def ascii_space_def)

lemma sample_readLine1: "readLine sample_data = (Inr line1, sample_rest1)"
  by (subst readLine_simple)
     (simp_all add: sample_data_def sample_rest1_def sample_rest2_def line1_def line2_def
        line3_def defaultBufSize_def chopCR_def)

lemma sample_readLine2: "readLine sample_rest1 = (Inr line2, sample_rest2)"
  by (subst readLine_simple)
     (simp_all add: sample_rest1_def sample_rest2_def line2_def line3_def defaultBufSize_def
        chopCR_def)

lemma sample_readLine3: "readLine sample_rest2 = (Inr line3, [])"
  by (subst readLine_simple)
     (simp_all add: sample_rest2_def line3_def defaultBufSize_def chopCR_def)

lemma sample_decode1:
  "decodeLine sample_lib iter line1 = Some (iter\<lparr>preLog := Some entry1\<rparr>, entry1)"
  by (simp add: decodeLine_def sample_trim sample_parse1 sample_lengths timeStampLayoutLen_30)

lemma sample_decode2:
  "decodeLine sample_lib iter line2 =
     (case preLog iter of
        None \<Rightarrow> None
      | Some pre \<Rightarrow> Some (iter, \<lparr>Time = Time pre, Level = Level pre, Message = line2\<rparr>))"
  by (simp add: decodeLine_def sample_trim sample_parse2 sample_lengths timeStampLayoutLen_30
      split: option.splits)

section \<open>Severity parsing\<close>

text \<open>The spellings the switch of \<open>ParseLogLevel\<close> lists, with their levels.\<close>

definition level_spellings :: "(string \<times> LogLevel) list" where
  "level_spellings =
     [(''debug'', LogLevel_Debug), (''DEBUG'', LogLevel_Debug),
      (''info'', LogLevel_Info), (''INFO'', LogLevel_Info),
      (''warn'', LogLevel_Warn), (''WARN'', LogLevel_Warn),
      (''trace'', LogLevel_Trace), (''TRACE'', LogLevel_Trace),
      (''critical'', LogLevel_Critical), (''CRITICAL'', LogLevel_Critical),
      (''error'', LogLevel_Error), (''ERROR'', LogLevel_Error)]"

text \<open>
  C4, as amended. \<open>ParseLogLevel\<close> is total and returns no error. It returns the level
  of a name exactly for the all-lower-case and the all-upper-case spelling of debug,
  info, warn, trace, critical and error; every other string, the empty string and the
  mixed-case spellings included, gives UNKNOWN.
\<close>

theorem ParseLogLevel_spellings:
  "ParseLogLevel s = (case map_of level_spellings s of Some l \<Rightarrow> l | None \<Rightarrow> LogLevel_UNKNOWN)"
  by (simp add: ParseLogLevel_def level_spellings_def)

theorem ParseLogLevel_spellings_witness:
  "ParseLogLevel ''WARN'' = LogLevel_Warn \<and> ParseLogLevel ''warn'' = LogLevel_Warn
   \<and> ParseLogLevel '''' = LogLevel_UNKNOWN \<and> ParseLogLevel ''fatal'' = LogLevel_UNKNOWN"
  using ParseLogLevel_spellings [of "''WARN''"] ParseLogLevel_spellings [of "''warn''"]
    ParseLogLevel_spellings [of "''''"] ParseLogLevel_spellings [of "''fatal''"]
  by (simp add: level_spellings_def)

text \<open>
  C4 as stated fails: the mixed-case spelling \<open>Info\<close> of info is not recognised.
\<close>

theorem ParseLogLevel_mixed_case_counterexample:
  "ParseLogLevel ''Info'' = LogLevel_UNKNOWN \<and> ParseLogLevel ''Info'' \<noteq> LogLevel_Info"
  by (simp add: ParseLogLevel_def)

lemma sample_iter_sel:
  "reader sample_iter = None" "preLog sample_iter = None" "fileIndex sample_iter = 0"
  "it_begin sample_iter = 1566814753011" "it_end sample_iter = 1566814754000"
  "levelFlag sample_iter = 0" "patterns sample_iter = []"
  "pending sample_iter =
     [\<lparr>lf_file = sample_file, lf_begin = 1566814753011, lf_end = 1566814754000,
       lf_compressed = False\<rparr>]"
  by (simp_all add: sample_iter_def)

lemma sample_update:
  "updateToNextReader sample_iter = Inr (sample_iter\<lparr>reader := Some sample_data\<rparr>)"
  by (simp add: updateToNextReader_def sample_iter_sel sample_file_def)

lemma entry1_sel:
  "Time entry1 = 1566814753011" "Level entry1 = LogLevel_Info"
  "Message entry1 = ''[x.go:1] [hello]''"
  by (simp_all add: entry1_def)

section \<open>The iterator: cancellation\<close>

lemma next_round_cancelled: "next_round L (Some 0) iter = (Some 0, iter, Some (Inl Canceled))"
  by (simp add: next_round_def ret_Err_def)

lemma next_loop_cancelled: "next_loop L (Some 0) iter = (Some 0, iter, Inl Canceled)"
  by (subst next_loop.simps) (simp add: next_round_cancelled)

text \<open>
  C7, as amended. When the context has been cancelled before the first call of \<open>next\<close>
  (the reader is still nil), the call returns io.EOF for an empty file list, the error of
  \<open>gzip.NewReader\<close> when the first file does not open as gzip, and otherwise fails
  with the cancellation error, returning no entry and reading no line.
\<close>

theorem next_cancelled_before_first_call:
  assumes "reader iter = None"
  shows "logIterator_next L (Some 0) iter =
     (if pending iter = [] then (Some 0, iter, Inl EOF)
      else (case updateToNextReader iter of
              Inl e \<Rightarrow> (Some 0, iter, Inl e)
            | Inr iter' \<Rightarrow> (Some 0, iter', Inl Canceled)))"
  using assms by (simp add: logIterator_next_def next_loop_cancelled split: sum.splits)

theorem next_cancelled_before_first_call_witness:
  "reader sample_iter = None
   \<and> logIterator_next sample_lib (Some 0) sample_iter =
       (Some 0, sample_iter\<lparr>reader := Some sample_data\<rparr>, Inl Canceled)"
  using next_cancelled_before_first_call [of sample_iter sample_lib]
  by (simp add: sample_iter_sel sample_update)

text \<open>
  C7 as stated fails for the empty file list: the first call returns io.EOF, not the
  cancellation error, although the context has been cancelled.
\<close>

theorem next_cancelled_empty_list_counterexample:
  "reader (sample_iter\<lparr>pending := []\<rparr>) = None
   \<and> isCtxDone (Some 0) = (True, Some 0)
   \<and> logIterator_next sample_lib (Some 0) (sample_iter\<lparr>pending := []\<rparr>) =
       (Some 0, sample_iter\<lparr>pending := []\<rparr>, Inl EOF)
   \<and> Inl EOF \<noteq> (Inl Canceled :: error + LogMessage)"
  by (simp add: logIterator_next_def sample_iter_sel)

section \<open>The iterator: severity filter\<close>

lemma and_bit_shift: "(w :: 64 word) AND push_bit n 1 = 0 \<longleftrightarrow> \<not> bit w n"
  by (simp add: and_exp_eq_0_iff_not_bit)

lemma known_level:
  "LogLevel_value LogLevel_UNKNOWN < LogLevel_value l \<longleftrightarrow> l \<noteq> LogLevel_UNKNOWN"
  by (cases l) simp_all

section \<open>The iterator: time window\<close>

lemma filterItem_Inr:
  "filterItem iter item = Some (Inr e) \<Longrightarrow>
     e = item \<and> it_begin iter \<le> Time e \<and> Time e \<le> it_end iter"
  by (auto simp: filterItem_def split: if_splits)

lemma decodeLine_fields:
  "decodeLine L iter raw = Some (iter', item) \<Longrightarrow>
     it_begin iter' = it_begin iter \<and> it_end iter' = it_end iter \<and> pending iter' = pending iter
     \<and> fileIndex iter' = fileIndex iter \<and> reader iter' = reader iter
     \<and> levelFlag iter' = levelFlag iter \<and> patterns iter' = patterns iter"
  by (auto simp: decodeLine_def Let_def split: if_splits sum.splits option.splits)

lemma updateToNextReader_fields:
  "updateToNextReader iter = Inr iter' \<Longrightarrow>
     it_begin iter' = it_begin iter \<and> it_end iter' = it_end iter \<and> pending iter' = pending iter
     \<and> fileIndex iter' = fileIndex iter \<and> preLog iter' = preLog iter
     \<and> (\<exists>r. reader iter' = Some r)"
  by (auto simp: updateToNextReader_def split: if_splits option.splits)

lemma next_loop_unfold:
  "next_round L c iter = (c', iter', out) \<Longrightarrow>
     next_loop L c iter = (case out of None \<Rightarrow> next_loop L c' iter' | Some res \<Rightarrow> (c', iter', res))"
  by (subst next_loop.simps) (simp split: option.splits)

lemma next_round_window:
  assumes "next_round L c iter = (c', iter', out)"
  shows "it_begin iter' = it_begin iter \<and> it_end iter' = it_end iter
     \<and> (\<forall>e. out = Some (Inr e) \<longrightarrow> it_begin iter \<le> Time e \<and> Time e \<le> it_end iter)"
  using assms
  by (auto simp: next_round_def Let_def ret_Err_def
      split: prod.splits bool.splits option.splits if_splits sum.splits
      dest!: decodeLine_fields updateToNextReader_fields filterItem_Inr)

lemma next_loop_window:
  "next_loop L c iter = (c', iter', Inr e) \<Longrightarrow> it_begin iter \<le> Time e \<and> Time e \<le> it_end iter"
proof (induction L c iter rule: next_loop.induct)
  case (1 L c iter)
  obtain c1 iter1 out where r: "next_round L c iter = (c1, iter1, out)"
    by (cases "next_round L c iter") auto
  note w = next_round_window [OF r]
  show ?case
  proof (cases out)
    case None
    with r "1.prems" have "next_loop L c1 iter1 = (c', iter', Inr e)"
      by (simp add: next_loop_unfold [OF r])
    from "1.IH" [OF r [symmetric] refl None this] w show ?thesis by simp
  next
    case (Some res)
    with r "1.prems" w show ?thesis
      by (simp add: next_loop_unfold [OF r])
  qed
qed

text \<open>
  C2. Every entry that \<open>next\<close> returns has a time inside the window of the query. In a
  round of the loop that reads a line and decodes an entry from it (parsed, or made from
  the previous entry), an entry later than the end of the window ends the call with
  io.EOF, the line is not skipped; an entry earlier than the begin of the window is
  dropped and the loop goes on with the next line.
\<close>

theorem next_time_window:
  "(logIterator_next L c iter = (c', iter', Inr e) \<longrightarrow>
      it_begin iter \<le> Time e \<and> Time e \<le> it_end iter)
   \<and> (isCtxDone c = (False, c1) \<and> reader iter = Some r \<and> readLine r = (Inr raw, r1)
        \<and> decodeLine L (iter\<lparr>reader := Some r1\<rparr>) raw = Some (iter2, item) \<longrightarrow>
       (it_end iter < Time item \<longrightarrow> next_loop L c iter = (c1, iter2, Inl EOF))
       \<and> (Time item < it_begin iter \<and> it_begin iter \<le> it_end iter \<longrightarrow>
            next_loop L c iter = next_loop L c1 iter2))"
proof (intro conjI impI)
  assume "logIterator_next L c iter = (c', iter', Inr e)"
  then show "it_begin iter \<le> Time e" and "Time e \<le> it_end iter"
    by (auto simp: logIterator_next_def split: if_splits sum.splits
        dest!: next_loop_window updateToNextReader_fields)
next
  assume a: "isCtxDone c = (False, c1) \<and> reader iter = Some r \<and> readLine r = (Inr raw, r1)
        \<and> decodeLine L (iter\<lparr>reader := Some r1\<rparr>) raw = Some (iter2, item)"
  then have w: "it_end iter2 = it_end iter" "it_begin iter2 = it_begin iter"
    by (auto dest!: decodeLine_fields)
  from a have rd: "next_round L c iter = (c1, iter2, filterItem iter2 item)"
    by (simp add: next_round_def)
  {
    assume "it_end iter < Time item"
    with w show "next_loop L c iter = (c1, iter2, Inl EOF)"
      by (simp add: next_loop_unfold [OF rd] filterItem_def)
  }
  {
    assume "Time item < it_begin iter \<and> it_begin iter \<le> it_end iter"
    with w show "next_loop L c iter = next_loop L c1 iter2"
      by (simp add: next_loop_unfold [OF rd] filterItem_def)
  }
qed

lemma sample_next1:
  "logIterator_next sample_lib None sample_iter =
     (None, sample_iter\<lparr>reader := Some sample_rest1, preLog := Some entry1\<rparr>, Inr entry1)"
proof -
  have "next_round sample_lib None (sample_iter\<lparr>reader := Some sample_data\<rparr>) =
      (None, sample_iter\<lparr>reader := Some sample_rest1, preLog := Some entry1\<rparr>, Some (Inr entry1))"
    by (simp add: next_round_def sample_readLine1 sample_decode1 filterItem_def
        sample_iter_sel entry1_sel)
  from next_loop_unfold [OF this] show ?thesis
    by (simp add: logIterator_next_def sample_iter_sel sample_update)
qed

theorem next_time_window_witness:
  "logIterator_next sample_lib None sample_iter =
     (None, sample_iter\<lparr>reader := Some sample_rest1, preLog := Some entry1\<rparr>, Inr entry1)
   \<and> it_begin sample_iter \<le> Time entry1 \<and> Time entry1 \<le> it_end sample_iter
   \<and> next_loop sample_lib None (sample_iter\<lparr>reader := Some sample_data, it_end := 1566814753010\<rparr>) =
       (None, sample_iter\<lparr>reader := Some sample_rest1, it_end := 1566814753010,
              preLog := Some entry1\<rparr>, Inl EOF)
   \<and> next_loop sample_lib None
        (sample_iter\<lparr>reader := Some sample_data, it_begin := 1566814753012\<rparr>) =
       next_loop sample_lib None
        (sample_iter\<lparr>reader := Some sample_rest1, it_begin := 1566814753012,
           preLog := Some entry1\<rparr>)"
  using sample_next1
    next_time_window [of sample_lib None sample_iter None
      "sample_iter\<lparr>reader := Some sample_rest1, preLog := Some entry1\<rparr>" entry1]
    next_time_window [of sample_lib None
      "sample_iter\<lparr>reader := Some sample_data, it_end := 1566814753010\<rparr>" _ _ _
      None sample_data line1 sample_rest1
      "sample_iter\<lparr>reader := Some sample_rest1, it_end := 1566814753010, preLog := Some entry1\<rparr>"
      entry1]
    next_time_window [of sample_lib None
      "sample_iter\<lparr>reader := Some sample_data, it_begin := 1566814753012\<rparr>" _ _ _
      None sample_data line1 sample_rest1
      "sample_iter\<lparr>reader := Some sample_rest1, it_begin := 1566814753012, preLog := Some entry1\<rparr>"
      entry1]
  by (simp add: sample_readLine1 sample_decode1 sample_iter_sel entry1_sel)

section \<open>The iterator: rounds, lines read and the previous entry\<close>

lemma forwardLines_Inr: "readLine r = (Inr raw, r1) \<Longrightarrow> forwardLines r = raw # forwardLines r1"
  by (subst forwardLines.simps) simp

lemma next_round_read:
  assumes "isCtxDone c = (False, c1)" and "reader iter = Some r" and "readLine r = (Inr raw, r1)"
  shows "next_round L c iter =
     (case decodeLine L (iter\<lparr>reader := Some r1\<rparr>) raw of
        None \<Rightarrow> (c1, iter\<lparr>reader := Some r1\<rparr>, None)
      | Some (iter2, item) \<Rightarrow> (c1, iter2, filterItem iter2 item))"
  using assms by (simp add: next_round_def Let_def)

lemma next_round_done:
  assumes "isCtxDone c = (True, c1)"
  shows "next_round L c iter = (c1, iter, Some (ret_Err (ctx_Err c1)))"
  using assms by (simp add: next_round_def)

lemma next_round_eof:
  assumes "isCtxDone c = (False, c1)" and "reader iter = Some r" and "readLine r = (Inl EOF, r1)"
    and "next_round L c iter = (c', iter', out)"
  shows "fileIndex iter' = Suc (fileIndex iter) \<and> (\<exists>q. reader iter' = Some q)"
  using assms
  by (auto simp: next_round_def Let_def updateToNextReader_def split: if_splits option.splits)

text \<open>What one round of the loop of \<open>next\<close> does to an iterator with a reader.\<close>

lemma next_round_cases:
  assumes "next_round L c iter = (c1, iter1, out)" and "reader iter = Some r"
  shows "(iter1 = iter \<and> (\<exists>e. out = Some (Inl e)))
     \<or> (fileIndex iter1 = Suc (fileIndex iter) \<and> (\<exists>q. reader iter1 = Some q))
     \<or> (\<exists>raw r1. forwardLines r = raw # forwardLines r1
          \<and> (case decodeLine L (iter\<lparr>reader := Some r1\<rparr>) raw of
                None \<Rightarrow> iter1 = iter\<lparr>reader := Some r1\<rparr> \<and> out = None
              | Some (iter2, item) \<Rightarrow> iter1 = iter2 \<and> out = filterItem iter2 item))"
proof (cases "isCtxDone c")
  case (Pair dn c0)
  show ?thesis
  proof (cases dn)
    case True
    with Pair have "next_round L c iter = (c0, iter, Some (ret_Err (ctx_Err c0)))"
      by (simp add: next_round_done)
    with assms(1) have "iter1 = iter \<and> (\<exists>e. out = Some (Inl e))"
      by (auto simp: ret_Err_def split: option.splits)
    then show ?thesis by simp
  next
    case False
    with Pair have nd: "isCtxDone c = (False, c0)" by simp
    obtain res r1 where rl: "readLine r = (res, r1)"
      by (cases "readLine r") auto
    from readLine_cases [OF rl] show ?thesis
    proof
      assume "res = Inl EOF \<and> r1 = []"
      with rl have "readLine r = (Inl EOF, r1)" by simp
      from next_round_eof [OF nd assms(2) this assms(1)] show ?thesis by simp
    next
      assume "\<exists>l. res = Inr l \<and> length r1 < length r"
      then obtain raw where raw: "res = Inr raw" by auto
      with rl have rl': "readLine r = (Inr raw, r1)" by simp
      then have fl: "forwardLines r = raw # forwardLines r1"
        by (rule forwardLines_Inr)
      from next_round_read [OF nd assms(2) rl', of L] assms(1) have
        "(case decodeLine L (iter\<lparr>reader := Some r1\<rparr>) raw of
                None \<Rightarrow> iter1 = iter\<lparr>reader := Some r1\<rparr> \<and> out = None
              | Some (iter2, item) \<Rightarrow> iter1 = iter2 \<and> out = filterItem iter2 item)"
        by (simp split: option.splits prod.splits)
      with fl show ?thesis by blast
    qed
  qed
qed

text \<open>A round keeps the file or moves to a later one; in the same file, it reads on.\<close>

lemma next_round_progress:
  assumes "next_round L c iter = (c1, iter1, out)" and "reader iter = Some r"
  shows "fileIndex iter \<le> fileIndex iter1
     \<and> (\<exists>r1. reader iter1 = Some r1
           \<and> (fileIndex iter1 = fileIndex iter \<longrightarrow>
                length (forwardLines r1) \<le> length (forwardLines r)))"
  using next_round_cases [OF assms]
proof (elim disjE exE conjE)
  fix e
  assume "iter1 = iter"
  with assms(2) show ?thesis by simp
next
  fix q
  assume "fileIndex iter1 = Suc (fileIndex iter)" "reader iter1 = Some q"
  then show ?thesis by simp
next
  fix raw r1
  assume fl: "forwardLines r = raw # forwardLines r1"
    and dc: "case decodeLine L (iter\<lparr>reader := Some r1\<rparr>) raw of
                None \<Rightarrow> iter1 = iter\<lparr>reader := Some r1\<rparr> \<and> out = None
              | Some (iter2, item) \<Rightarrow> iter1 = iter2 \<and> out = filterItem iter2 item"
  from dc have "fileIndex iter1 = fileIndex iter \<and> reader iter1 = Some r1"
    by (auto split: option.splits dest!: decodeLine_fields)
  with fl show ?thesis by simp
qed

lemma next_loop_progress:
  "next_loop L c iter = (c', iter', res) \<Longrightarrow> reader iter = Some r \<Longrightarrow>
     fileIndex iter \<le> fileIndex iter'
     \<and> (\<exists>r'. reader iter' = Some r'
           \<and> (fileIndex iter' = fileIndex iter \<longrightarrow>
                length (forwardLines r') \<le> length (forwardLines r)))"
proof (induction L c iter arbitrary: r rule: next_loop.induct)
  case (1 L c iter)
  obtain c1 iter1 out where rd: "next_round L c iter = (c1, iter1, out)"
    by (cases "next_round L c iter") auto
  from next_round_progress [OF rd "1.prems"(2)] obtain r1 where
    p: "fileIndex iter \<le> fileIndex iter1" "reader iter1 = Some r1"
       "fileIndex iter1 = fileIndex iter \<longrightarrow> length (forwardLines r1) \<le> length (forwardLines r)"
    by auto
  show ?case
  proof (cases out)
    case None
    with rd "1.prems" have "next_loop L c1 iter1 = (c', iter', res)"
      by (simp add: next_loop_unfold [OF rd])
    from "1.IH" [OF rd [symmetric] refl None this p(2)] p show ?thesis
      by auto
  next
    case (Some x)
    with rd "1.prems" have "iter' = iter1"
      by (simp add: next_loop_unfold [OF rd])
    with p show ?thesis by auto
  qed
qed

text \<open>
  The previous entry after a line, in the words of the specification: a line shorter than
  the timestamp is skipped while there is no previous entry; a line that parses becomes
  the previous entry; any other line leaves it as it is. \<open>last_parsed\<close> is the previous
  entry after a list of lines.
\<close>

definition remember :: "golib \<Rightarrow> LogMessage option \<Rightarrow> string \<Rightarrow> LogMessage option" where
  "remember L pre raw =
     (if pre = None \<and> length (TrimSpace L raw) < timeStampLayoutLen then pre
      else (case parseLogItem L (TrimSpace L raw) of Inr item \<Rightarrow> Some item | Inl e \<Rightarrow> pre))"

fun last_parsed :: "golib \<Rightarrow> LogMessage option \<Rightarrow> string list \<Rightarrow> LogMessage option" where
  "last_parsed L pre [] = pre"
| "last_parsed L pre (raw # raws) = last_parsed L (remember L pre raw) raws"

lemma decodeLine_None:
  "decodeLine L iter raw = None \<Longrightarrow> remember L (preLog iter) raw = preLog iter"
  by (auto simp: decodeLine_def remember_def Let_def split: if_splits sum.splits option.splits)

lemma decodeLine_Some:
  "decodeLine L iter raw = Some (iter', item) \<Longrightarrow>
     preLog iter' = remember L (preLog iter) raw
     \<and> (case parseLogItem L (TrimSpace L raw) of
           Inr parsed \<Rightarrow> item = parsed
         | Inl e \<Rightarrow>
             (\<exists>pre. preLog iter = Some pre
                \<and> item = \<lparr>Time = Time pre, Level = Level pre, Message = TrimSpace L raw\<rparr>))"
  by (auto simp: decodeLine_def remember_def Let_def split: if_splits sum.splits option.splits)

text \<open>The lines that were read between a reader \<open>r\<close> and what is left of it, \<open>r'\<close>.\<close>

definition lines_read :: "string \<Rightarrow> string \<Rightarrow> string list" where
  "lines_read r r' =
     take (length (forwardLines r) - length (forwardLines r')) (forwardLines r)"

lemma lines_read_same: "lines_read r r = []"
  by (simp add: lines_read_def)

lemma lines_read_Cons:
  "forwardLines r = raw # forwardLines r1 \<Longrightarrow>
   length (forwardLines r') \<le> length (forwardLines r1) \<Longrightarrow>
     lines_read r r' = raw # lines_read r1 r'"
  by (simp add: lines_read_def Suc_diff_le)

lemma next_loop_last_parsed:
  assumes "next_loop L c iter = (c', iter', res)"
    and "reader iter = Some r" and "reader iter' = Some r'"
    and "fileIndex iter' = fileIndex iter"
  shows "preLog iter' = last_parsed L (preLog iter) (lines_read r r')
     \<and> (\<forall>item. res = Inr item \<longrightarrow>
           lines_read r r' \<noteq> []
           \<and> (case parseLogItem L (TrimSpace L (last (lines_read r r'))) of
                 Inr parsed \<Rightarrow> item = parsed
               | Inl e \<Rightarrow>
                   (\<exists>pre. last_parsed L (preLog iter) (butlast (lines_read r r')) = Some pre
                      \<and> item = \<lparr>Time = Time pre, Level = Level pre,
                                 Message = TrimSpace L (last (lines_read r r'))\<rparr>)))"
  using assms
proof (induction L c iter arbitrary: r rule: next_loop.induct)
  case (1 L c iter)
  obtain c1 iter1 out where rd: "next_round L c iter = (c1, iter1, out)"
    by (cases "next_round L c iter") auto
  note unf = next_loop_unfold [OF rd]
  from next_round_progress [OF rd "1.prems"(2)] obtain q where
    q: "fileIndex iter \<le> fileIndex iter1" "reader iter1 = Some q"
    by auto
  have rest: "fileIndex iter1 \<le> fileIndex iter'
      \<and> (fileIndex iter' = fileIndex iter1 \<longrightarrow>
            length (forwardLines r') \<le> length (forwardLines q))"
  proof (cases out)
    case None
    with unf "1.prems"(1) have "next_loop L c1 iter1 = (c', iter', res)" by simp
    from next_loop_progress [OF this q(2)] "1.prems"(3) show ?thesis by simp
  next
    case (Some x)
    with unf "1.prems"(1) have "iter' = iter1" by simp
    with q "1.prems"(3) show ?thesis by simp
  qed
  from next_round_cases [OF rd "1.prems"(2)] show ?case
  proof (elim disjE exE conjE)
    fix e
    assume "iter1 = iter" "out = Some (Inl e)"
    with unf "1.prems"(1) have "iter' = iter" "res = Inl e" by simp_all
    with "1.prems"(2,3) show ?thesis
      by (simp add: lines_read_same)
  next
    fix q'
    assume "fileIndex iter1 = Suc (fileIndex iter)"
    with rest "1.prems"(4) show ?thesis by simp
  next
    fix raw r1
    assume fl: "forwardLines r = raw # forwardLines r1"
      and dc: "case decodeLine L (iter\<lparr>reader := Some r1\<rparr>) raw of
                None \<Rightarrow> iter1 = iter\<lparr>reader := Some r1\<rparr> \<and> out = None
              | Some (iter2, item) \<Rightarrow> iter1 = iter2 \<and> out = filterItem iter2 item"
    from dc have same: "fileIndex iter1 = fileIndex iter" and rq: "reader iter1 = Some r1"
      by (auto split: option.splits dest!: decodeLine_fields)
    with q have "q = r1" by simp
    with rest same "1.prems"(4) have le: "length (forwardLines r') \<le> length (forwardLines r1)"
      by simp
    note lr = lines_read_Cons [OF fl le]
    from dc have pl: "preLog iter1 = remember L (preLog iter) raw"
      by (auto split: option.splits dest: decodeLine_None decodeLine_Some)
    show ?thesis
    proof (cases out)
      case None
      with unf "1.prems"(1) have nl: "next_loop L c1 iter1 = (c', iter', res)" by simp
      have "fileIndex iter' = fileIndex iter1"
        using same "1.prems"(4) by simp
      note ih = "1.IH" [OF rd [symmetric] refl None nl rq "1.prems"(3) this]
      from ih have a: "preLog iter' = last_parsed L (preLog iter) (lines_read r r')"
        by (simp add: lr pl)
      have b: "lines_read r r' \<noteq> []
           \<and> (case parseLogItem L (TrimSpace L (last (lines_read r r'))) of
                 Inr parsed \<Rightarrow> item = parsed
               | Inl e \<Rightarrow>
                   (\<exists>pre. last_parsed L (preLog iter) (butlast (lines_read r r')) = Some pre
                      \<and> item = \<lparr>Time = Time pre, Level = Level pre,
                                 Message = TrimSpace L (last (lines_read r r'))\<rparr>))"
        if "res = Inr item" for item
      proof -
        from ih that have ne: "lines_read r1 r' \<noteq> []" by simp
        then have eq1: "last (lines_read r r') = last (lines_read r1 r')"
          and eq2: "last_parsed L (preLog iter) (butlast (lines_read r r')) =
            last_parsed L (preLog iter1) (butlast (lines_read r1 r'))"
          by (simp_all add: lr pl)
        have "lines_read r r' \<noteq> []"
          by (simp add: lr)
        with ih that show ?thesis
          unfolding eq1 eq2 by simp
      qed
      from a b show ?thesis by blast
    next
      case (Some x)
      with unf "1.prems"(1) have fin: "iter' = iter1" "res = x" by simp_all
      with rq "1.prems"(3) have "r' = r1" by simp
      with lr have one: "lines_read r r' = [raw]"
        by (simp add: lines_read_same)
      from dc Some obtain item0 where d0: "decodeLine L (iter\<lparr>reader := Some r1\<rparr>) raw = Some (iter1, item0)"
        and x: "filterItem iter1 item0 = Some x"
        by (auto split: option.splits)
      from decodeLine_Some [OF d0] have it0:
        "case parseLogItem L (TrimSpace L raw) of
           Inr parsed \<Rightarrow> item0 = parsed
         | Inl e \<Rightarrow>
             (\<exists>pre. preLog iter = Some pre
                \<and> item0 = \<lparr>Time = Time pre, Level = Level pre, Message = TrimSpace L raw\<rparr>)"
        by (simp split: sum.splits)
      have "item = item0" if "res = Inr item" for item
        using filterItem_Inr [of iter1 item0 item] x fin(2) that by simp
      with it0 fin pl one show ?thesis
        by (auto split: sum.splits)
    qed
  qed
qed

section \<open>The iterator: first call and later calls\<close>

text \<open>A call of \<open>next\<close> that has a reader, or opens the first file, runs the loop.\<close>

lemma next_with_reader:
  "reader iter = Some r \<Longrightarrow> logIterator_next L c iter = next_loop L c iter"
  by (simp add: logIterator_next_def)

lemma next_first_call:
  "reader iter = None \<Longrightarrow> pending iter \<noteq> [] \<Longrightarrow> updateToNextReader iter = Inr iter0 \<Longrightarrow>
     logIterator_next L c iter = next_loop L c iter0"
  by (simp add: logIterator_next_def)

section \<open>The iterator: severity mask\<close>

lemma filterItem_level:
  "filterItem iter item = Some (Inr e) \<Longrightarrow>
     levelFlag iter = 0 \<or> Level e = LogLevel_UNKNOWN
     \<or> bit (levelFlag iter) (LogLevel_value (Level e))"
  unfolding filterItem_def and_bit_shift known_level by (auto split: if_splits)

lemma filterItem_mask:
  assumes "it_begin iter \<le> Time item" and "Time item \<le> it_end iter"
    and "list_all (\<lambda>p. p (Message item)) (patterns iter)"
  shows "filterItem iter item =
     (if levelFlag iter = 0 \<or> Level item = LogLevel_UNKNOWN
         \<or> bit (levelFlag iter) (LogLevel_value (Level item))
      then Some (Inr item) else None)"
  unfolding filterItem_def and_bit_shift known_level using assms by auto

lemma updateToNextReader_levelFlag:
  "updateToNextReader iter = Inr iter' \<Longrightarrow> levelFlag iter' = levelFlag iter"
  by (auto simp: updateToNextReader_def split: if_splits option.splits)

lemma next_round_level:
  assumes "next_round L c iter = (c', iter', out)"
  shows "levelFlag iter' = levelFlag iter
     \<and> (\<forall>e. out = Some (Inr e) \<longrightarrow>
           levelFlag iter = 0 \<or> Level e = LogLevel_UNKNOWN
           \<or> bit (levelFlag iter) (LogLevel_value (Level e)))"
  using assms
  by (auto simp: next_round_def Let_def ret_Err_def
      split: prod.splits bool.splits option.splits if_splits sum.splits
      dest!: decodeLine_fields updateToNextReader_levelFlag filterItem_level)

lemma next_loop_level:
  "next_loop L c iter = (c', iter', Inr e) \<Longrightarrow>
     levelFlag iter = 0 \<or> Level e = LogLevel_UNKNOWN
     \<or> bit (levelFlag iter) (LogLevel_value (Level e))"
proof (induction L c iter rule: next_loop.induct)
  case (1 L c iter)
  obtain c1 iter1 out where r: "next_round L c iter = (c1, iter1, out)"
    by (cases "next_round L c iter") auto
  note w = next_round_level [OF r]
  show ?case
  proof (cases out)
    case None
    with r "1.prems" have "next_loop L c1 iter1 = (c', iter', Inr e)"
      by (simp add: next_loop_unfold [OF r])
    from "1.IH" [OF r [symmetric] refl None this] w show ?thesis by simp
  next
    case (Some res)
    with r "1.prems" w show ?thesis
      by (simp add: next_loop_unfold [OF r])
  qed
qed

text \<open>
  C8. An entry that \<open>next\<close> returns has passed the severity filter: the mask is 0, or
  the level of the entry is UNKNOWN, or the bit of the mask at the number of the level is
  set. And the filter excludes nothing else: when a call of \<open>next\<close> reads a line and
  decodes an entry inside the time window whose message matches every pattern, it returns
  that entry if the mask is 0 (whatever the level), if the level is UNKNOWN (whatever the
  mask), or if bit \<open>i\<close> of the mask is set for the level of number \<open>i\<close>; otherwise it
  drops the entry and goes on with the next line.
\<close>

theorem severity_mask:
  "(logIterator_next L c iter = (c', iter', Inr e) \<longrightarrow>
      levelFlag iter = 0 \<or> Level e = LogLevel_UNKNOWN
      \<or> bit (levelFlag iter) (LogLevel_value (Level e)))
   \<and> (reader iter = Some r \<and> isCtxDone c = (False, c1) \<and> readLine r = (Inr raw, r1)
        \<and> decodeLine L (iter\<lparr>reader := Some r1\<rparr>) raw = Some (iter2, item)
        \<and> it_begin iter \<le> Time item \<and> Time item \<le> it_end iter
        \<and> list_all (\<lambda>p. p (Message item)) (patterns iter) \<longrightarrow>
       logIterator_next L c iter =
         (if levelFlag iter = 0 \<or> Level item = LogLevel_UNKNOWN
             \<or> bit (levelFlag iter) (LogLevel_value (Level item))
          then (c1, iter2, Inr item)
          else logIterator_next L c1 iter2))"
proof (intro conjI impI)
  assume "logIterator_next L c iter = (c', iter', Inr e)"
  then show "levelFlag iter = 0 \<or> Level e = LogLevel_UNKNOWN
      \<or> bit (levelFlag iter) (LogLevel_value (Level e))"
    by (auto simp: logIterator_next_def split: if_splits sum.splits
        dest!: next_loop_level updateToNextReader_levelFlag)
next
  assume a: "reader iter = Some r \<and> isCtxDone c = (False, c1) \<and> readLine r = (Inr raw, r1)
        \<and> decodeLine L (iter\<lparr>reader := Some r1\<rparr>) raw = Some (iter2, item)
        \<and> it_begin iter \<le> Time item \<and> Time item \<le> it_end iter
        \<and> list_all (\<lambda>p. p (Message item)) (patterns iter)"
  then have f: "it_end iter2 = it_end iter" "it_begin iter2 = it_begin iter"
    "levelFlag iter2 = levelFlag iter" "patterns iter2 = patterns iter"
    "reader iter2 = Some r1"
    by (auto dest!: decodeLine_fields)
  from a have rd: "next_round L c iter = (c1, iter2, filterItem iter2 item)"
    by (simp add: next_round_read)
  from a f have fi: "filterItem iter2 item =
     (if levelFlag iter = 0 \<or> Level item = LogLevel_UNKNOWN
         \<or> bit (levelFlag iter) (LogLevel_value (Level item))
      then Some (Inr item) else None)"
    using filterItem_mask [of iter2 item] by simp
  from a have "logIterator_next L c iter = next_loop L c iter"
    by (simp add: next_with_reader)
  moreover from f have "logIterator_next L c1 iter2 = next_loop L c1 iter2"
    by (simp add: next_with_reader)
  ultimately show "logIterator_next L c iter =
         (if levelFlag iter = 0 \<or> Level item = LogLevel_UNKNOWN
             \<or> bit (levelFlag iter) (LogLevel_value (Level item))
          then (c1, iter2, Inr item)
          else logIterator_next L c1 iter2)"
    by (simp add: next_loop_unfold [OF rd] fi)
qed

lemma entry3_sel:
  "Time entry3 = 1566814754000" "Level entry3 = LogLevel_Warn"
  "Message entry3 = ''[x.go:2] [bye]''"
  by (simp_all add: entry3_def)

lemma sample_decode3:
  "decodeLine sample_lib iter line3 = Some (iter\<lparr>preLog := Some entry3\<rparr>, entry3)"
  by (simp add: decodeLine_def sample_trim sample_parse3 sample_lengths timeStampLayoutLen_30)

lemma sample_mask8:
  "logIterator_next sample_lib None (sample_iter\<lparr>levelFlag := 8\<rparr>) =
     (None, sample_iter\<lparr>levelFlag := 8, reader := Some [], preLog := Some entry3\<rparr>, Inr entry3)"
proof -
  let ?it = "sample_iter\<lparr>levelFlag := 8\<rparr>"
  have up: "updateToNextReader ?it = Inr (?it\<lparr>reader := Some sample_data\<rparr>)"
    by (simp add: updateToNextReader_def sample_iter_sel sample_file_def)
  have r1: "next_round sample_lib None (?it\<lparr>reader := Some sample_data\<rparr>) =
      (None, ?it\<lparr>reader := Some sample_rest1, preLog := Some entry1\<rparr>, None)"
    by (subst next_round_read [of None None _ sample_data line1 sample_rest1])
       (simp_all add: sample_readLine1 sample_decode1 filterItem_def sample_iter_sel entry1_sel)
  have r2: "next_round sample_lib None (?it\<lparr>reader := Some sample_rest1, preLog := Some entry1\<rparr>) =
      (None, ?it\<lparr>reader := Some sample_rest2, preLog := Some entry1\<rparr>, None)"
    by (subst next_round_read [of None None _ sample_rest1 line2 sample_rest2])
       (simp_all add: sample_readLine2 sample_decode2 filterItem_def sample_iter_sel entry1_sel)
  have r3: "next_round sample_lib None (?it\<lparr>reader := Some sample_rest2, preLog := Some entry1\<rparr>) =
      (None, ?it\<lparr>reader := Some [], preLog := Some entry3\<rparr>, Some (Inr entry3))"
    by (subst next_round_read [of None None _ sample_rest2 line3 "[]"])
       (simp_all add: sample_readLine3 sample_decode3 filterItem_def sample_iter_sel entry3_sel)
  have "logIterator_next sample_lib None ?it =
      next_loop sample_lib None (?it\<lparr>reader := Some sample_data\<rparr>)"
    by (rule next_first_call [OF _ _ up]) (simp_all add: sample_iter_sel)
  also have "\<dots> = next_loop sample_lib None (?it\<lparr>reader := Some sample_rest1, preLog := Some entry1\<rparr>)"
    by (simp add: next_loop_unfold [OF r1])
  also have "\<dots> = next_loop sample_lib None (?it\<lparr>reader := Some sample_rest2, preLog := Some entry1\<rparr>)"
    by (simp add: next_loop_unfold [OF r2])
  also have "\<dots> = (None, ?it\<lparr>reader := Some [], preLog := Some entry3\<rparr>, Inr entry3)"
    by (simp add: next_loop_unfold [OF r3])
  finally show ?thesis by simp
qed

theorem severity_mask_witness:
  "logIterator_next sample_lib None (sample_iter\<lparr>levelFlag := 8\<rparr>) =
     (None, sample_iter\<lparr>levelFlag := 8, reader := Some [], preLog := Some entry3\<rparr>, Inr entry3)
   \<and> bit (8 :: 64 word) (LogLevel_value (Level entry3))
   \<and> logIterator_next sample_lib None (sample_iter\<lparr>levelFlag := 8, reader := Some sample_data\<rparr>) =
      logIterator_next sample_lib None
        (sample_iter\<lparr>levelFlag := 8, reader := Some sample_rest1, preLog := Some entry1\<rparr>)
   \<and> logIterator_next sample_lib None (sample_iter\<lparr>reader := Some sample_data\<rparr>) =
      (None, sample_iter\<lparr>reader := Some sample_rest1, preLog := Some entry1\<rparr>, Inr entry1)"
  using sample_mask8
    severity_mask [of sample_lib None "sample_iter\<lparr>levelFlag := 8\<rparr>" None
      "sample_iter\<lparr>levelFlag := 8, reader := Some [], preLog := Some entry3\<rparr>" entry3]
    severity_mask [of sample_lib None "sample_iter\<lparr>levelFlag := 8, reader := Some sample_data\<rparr>"
      _ _ _ sample_data None line1 sample_rest1
      "sample_iter\<lparr>levelFlag := 8, reader := Some sample_rest1, preLog := Some entry1\<rparr>" entry1]
    severity_mask [of sample_lib None "sample_iter\<lparr>reader := Some sample_data\<rparr>"
      _ _ _ sample_data None line1 sample_rest1
      "sample_iter\<lparr>reader := Some sample_rest1, preLog := Some entry1\<rparr>" entry1]
  by (simp add: sample_readLine1 sample_decode1 sample_iter_sel entry1_sel entry3_sel)

section \<open>The iterator: continuation lines\<close>

lemma decodeLine_unparsable:
  "parseLogItem L (TrimSpace L raw) = Inl e \<Longrightarrow>
     decodeLine L iter raw =
       (case preLog iter of
          None \<Rightarrow> None
        | Some pre \<Rightarrow>
            Some (iter, \<lparr>Time = Time pre, Level = Level pre, Message = TrimSpace L raw\<rparr>))"
  by (simp add: decodeLine_def Let_def split: option.splits)


lemma forwardLines_Inl: "readLine r = (Inl e, r1) \<Longrightarrow> forwardLines r = []"
  by (subst forwardLines.simps) simp

lemma readLine_Nil: "readLine [] = (Inl EOF, [])"
  by (subst readLine_simple) (simp_all add: defaultBufSize_def)

lemma sample_forwardLines:
  "forwardLines sample_rest2 = [line3]" "forwardLines sample_rest1 = [line2, line3]"
  "forwardLines sample_data = [line1, line2, line3]"
proof -
  have "forwardLines [] = []"
    by (rule forwardLines_Inl [OF readLine_Nil])
  then show a: "forwardLines sample_rest2 = [line3]"
    by (simp add: forwardLines_Inr [OF sample_readLine3])
  then show b: "forwardLines sample_rest1 = [line2, line3]"
    by (simp add: forwardLines_Inr [OF sample_readLine2])
  then show "forwardLines sample_data = [line1, line2, line3]"
    by (simp add: forwardLines_Inr [OF sample_readLine1])
qed






section \<open>The iterator: runs of continuation lines\<close>

lemma remember_unparsable:
  "isl (parseLogItem L (TrimSpace L raw)) \<Longrightarrow> remember L pre raw = pre"
  by (cases "parseLogItem L (TrimSpace L raw)") (simp_all add: remember_def)

lemma last_parsed_unparsable:
  "\<forall>l \<in> set ls. isl (parseLogItem L (TrimSpace L l)) \<Longrightarrow> last_parsed L pre ls = pre"
  by (induction ls arbitrary: pre) (simp_all add: remember_unparsable)

text \<open>Where \<open>preLog\<close> comes from: a round, the loop and a call of \<open>next\<close> leave it as it
  was or set it to an entry that \<open>parseLogItem\<close> gave for a trimmed line.\<close>

definition preLog_step :: "golib \<Rightarrow> logIterator \<Rightarrow> logIterator \<Rightarrow> bool" where
  "preLog_step L iter iter' \<longleftrightarrow>
     preLog iter' = preLog iter
     \<or> (\<exists>raw item. parseLogItem L (TrimSpace L raw) = Inr item \<and> preLog iter' = Some item)"

lemma preLog_step_trans:
  "preLog_step L iter iter1 \<Longrightarrow> preLog_step L iter1 iter' \<Longrightarrow> preLog_step L iter iter'"
  by (auto simp: preLog_step_def)

lemma decodeLine_preLog:
  "decodeLine L iter raw = Some (iter', item) \<Longrightarrow> preLog_step L iter iter'"
  by (auto simp: decodeLine_def Let_def preLog_step_def split: if_splits sum.splits option.splits)

lemma next_round_preLog:
  assumes "next_round L c iter = (c', iter', out)"
  shows "preLog_step L iter iter'"
proof -
  have a: "\<And>i. preLog_step L i i" by (simp add: preLog_step_def)
  have b: "\<And>i r. preLog_step L i (i\<lparr>reader := r\<rparr>)" by (simp add: preLog_step_def)
  have d: "\<And>i j. updateToNextReader i = Inr j \<Longrightarrow> preLog j = preLog i"
    by (simp add: updateToNextReader_fields)
  from assms show ?thesis
    by (auto simp: next_round_def Let_def a b preLog_step_def
        split: prod.splits bool.splits option.splits if_splits sum.splits
        dest!: decodeLine_preLog d)
qed

lemma next_loop_preLog:
  "next_loop L c iter = (c', iter', res) \<Longrightarrow> preLog_step L iter iter'"
proof (induction L c iter rule: next_loop.induct)
  case (1 L c iter)
  obtain c1 iter1 out where r: "next_round L c iter = (c1, iter1, out)"
    by (cases "next_round L c iter") auto
  note w = next_round_preLog [OF r]
  show ?case
  proof (cases out)
    case None
    with r "1.prems" have "next_loop L c1 iter1 = (c', iter', res)"
      by (simp add: next_loop_unfold [OF r])
    from "1.IH" [OF r [symmetric] refl None this] w show ?thesis
      by (blast intro: preLog_step_trans)
  next
    case (Some x)
    with r "1.prems" w show ?thesis
      by (simp add: next_loop_unfold [OF r])
  qed
qed

lemma next_preLog:
  "logIterator_next L c iter = (c', iter', res) \<Longrightarrow> preLog_step L iter iter'"
  by (auto simp: logIterator_next_def preLog_step_def [of L iter iter]
      split: if_splits sum.splits
      dest!: next_loop_preLog updateToNextReader_fields)
     (auto simp: preLog_step_def)

lemma next_unparsable_run:
  assumes "reader iter = Some q
      \<or> (reader iter = None \<and> pending iter \<noteq> []
           \<and> updateToNextReader iter = Inr (iter\<lparr>reader := Some q\<rparr>))"
    and "logIterator_next L c iter = (c', iter', res)"
    and "reader iter' = Some q'" and "fileIndex iter' = fileIndex iter"
    and "\<forall>l \<in> set (lines_read q q'). isl (parseLogItem L (TrimSpace L l))"
  shows "preLog iter' = preLog iter
     \<and> (\<forall>item. res = Inr item \<longrightarrow>
           (\<exists>pre. preLog iter = Some pre
              \<and> item = \<lparr>Time = Time pre, Level = Level pre,
                         Message = TrimSpace L (last (lines_read q q'))\<rparr>))"
proof -
  let ?iter0 = "iter\<lparr>reader := Some q\<rparr>"
  from assms(1) have "logIterator_next L c iter = next_loop L c ?iter0"
  proof (elim conjE disjE)
    assume rq: "reader iter = Some q"
    then have eq: "?iter0 = iter" by (cases iter) simp
    show ?thesis by (subst eq) (rule next_with_reader [OF rq])
  next
    assume "reader iter = None" "pending iter \<noteq> []"
      "updateToNextReader iter = Inr ?iter0"
    then show ?thesis by (rule next_first_call)
  qed
  with assms(2) have nl: "next_loop L c ?iter0 = (c', iter', res)"
    by simp
  from assms(4) have fi: "fileIndex iter' = fileIndex ?iter0"
    by simp
  from next_loop_last_parsed [OF nl _ assms(3) fi, of q]
  have g1: "preLog iter' = last_parsed L (preLog iter) (lines_read q q')"
    and g2: "\<And>item. res = Inr item \<Longrightarrow> lines_read q q' \<noteq> []
           \<and> (case parseLogItem L (TrimSpace L (last (lines_read q q'))) of
                 Inr parsed \<Rightarrow> item = parsed
               | Inl e \<Rightarrow>
                   (\<exists>pre. last_parsed L (preLog iter) (butlast (lines_read q q')) = Some pre
                      \<and> item = \<lparr>Time = Time pre, Level = Level pre,
                                 Message = TrimSpace L (last (lines_read q q'))\<rparr>))"
    by (simp_all cong: sum.case_cong)
  from g1 last_parsed_unparsable [OF assms(5)] have a: "preLog iter' = preLog iter"
    by simp
  have b: "\<exists>pre. preLog iter = Some pre
              \<and> item = \<lparr>Time = Time pre, Level = Level pre,
                         Message = TrimSpace L (last (lines_read q q'))\<rparr>"
    if "res = Inr item" for item
  proof -
    from g2 [OF that] have ne: "lines_read q q' \<noteq> []"
      and cs: "case parseLogItem L (TrimSpace L (last (lines_read q q'))) of
                   Inr parsed \<Rightarrow> item = parsed
                 | Inl e \<Rightarrow>
                     (\<exists>pre. last_parsed L (preLog iter) (butlast (lines_read q q')) = Some pre
                        \<and> item = \<lparr>Time = Time pre, Level = Level pre,
                                   Message = TrimSpace L (last (lines_read q q'))\<rparr>)"
      by simp_all
    from ne assms(5) have "isl (parseLogItem L (TrimSpace L (last (lines_read q q'))))"
      by simp
    moreover from assms(5) have "\<forall>l \<in> set (butlast (lines_read q q')).
        isl (parseLogItem L (TrimSpace L l))"
      by (auto dest: in_set_butlastD)
    then have "last_parsed L (preLog iter) (butlast (lines_read q q')) = preLog iter"
      by (rule last_parsed_unparsable)
    ultimately show ?thesis
      using cs by (cases "parseLogItem L (TrimSpace L (last (lines_read q q')))") simp_all
  qed
  from a b show ?thesis by blast
qed

text \<open>
  C10. A call of \<open>next\<close> that stays in one file and reads only lines that do not parse
  leaves \<open>preLog\<close> as it was, whatever it returns; the entry it returns, if any, is made
  of the time and the level of that \<open>preLog\<close> and of the last line read. So the entries
  of a run of lines that do not parse all have the time and the level of the entry parsed
  before the run, and none of them becomes \<open>preLog\<close>. And whatever a call of \<open>next\<close>
  reads, in whatever files, it leaves \<open>preLog\<close> as it was or sets it to an entry that
  \<open>parseLogItem\<close> gave for a trimmed line.
\<close>

theorem preLog_kept_by_continuations:
  "((reader iter = Some q
      \<or> (reader iter = None \<and> pending iter \<noteq> []
           \<and> updateToNextReader iter = Inr (iter\<lparr>reader := Some q\<rparr>)))
    \<and> logIterator_next L c iter = (c', iter', res)
    \<and> reader iter' = Some q' \<and> fileIndex iter' = fileIndex iter
    \<and> (\<forall>l \<in> set (lines_read q q'). isl (parseLogItem L (TrimSpace L l)))
    \<longrightarrow> preLog iter' = preLog iter
       \<and> (\<forall>item. res = Inr item \<longrightarrow>
             (\<exists>pre. preLog iter = Some pre
                \<and> item = \<lparr>Time = Time pre, Level = Level pre,
                           Message = TrimSpace L (last (lines_read q q'))\<rparr>)))
   \<and> (logIterator_next L c iter = (c', iter', res)
      \<longrightarrow> preLog iter' = preLog iter
         \<or> (\<exists>raw item. parseLogItem L (TrimSpace L raw) = Inr item
                \<and> preLog iter' = Some item))"
proof (rule conjI; rule impI)
  assume a: "(reader iter = Some q
      \<or> (reader iter = None \<and> pending iter \<noteq> []
           \<and> updateToNextReader iter = Inr (iter\<lparr>reader := Some q\<rparr>)))
    \<and> logIterator_next L c iter = (c', iter', res)
    \<and> reader iter' = Some q' \<and> fileIndex iter' = fileIndex iter
    \<and> (\<forall>l \<in> set (lines_read q q'). isl (parseLogItem L (TrimSpace L l)))"
  then have a1: "reader iter = Some q
      \<or> (reader iter = None \<and> pending iter \<noteq> []
           \<and> updateToNextReader iter = Inr (iter\<lparr>reader := Some q\<rparr>))"
    and a2: "logIterator_next L c iter = (c', iter', res)"
    and a3: "reader iter' = Some q'" and a4: "fileIndex iter' = fileIndex iter"
    and a5: "\<forall>l \<in> set (lines_read q q'). isl (parseLogItem L (TrimSpace L l))"
    by blast+
  show "preLog iter' = preLog iter
       \<and> (\<forall>item. res = Inr item \<longrightarrow>
             (\<exists>pre. preLog iter = Some pre
                \<and> item = \<lparr>Time = Time pre, Level = Level pre,
                           Message = TrimSpace L (last (lines_read q q'))\<rparr>))"
    by (rule next_unparsable_run [OF a1 a2 a3 a4 a5])
next
  assume "logIterator_next L c iter = (c', iter', res)"
  then have "preLog_step L iter iter'" by (rule next_preLog)
  then show "preLog iter' = preLog iter
         \<or> (\<exists>raw item. parseLogItem L (TrimSpace L raw) = Inr item
                \<and> preLog iter' = Some item)"
    by (simp add: preLog_step_def)
qed

text \<open>An example with a run of two lines that do not parse: the example file with one
  more line of the stack trace after the second line.\<close>

definition line2b :: string where
  "line2b = ''more of the stack trace''"

definition run_rest2 :: string where
  "run_rest2 = line2b @ LF # sample_rest2"

definition run_rest1 :: string where
  "run_rest1 = line2 @ LF # run_rest2"

definition run_data :: string where
  "run_data = line1 @ LF # run_rest1"

definition run_file :: osFile where
  "run_file =
     \<lparr>f_name = ''/log/tidb.log'', f_data = run_data, f_gunzip = None,
      f_seek_fails = (\<lambda>off. False), f_read_fails = (\<lambda>off. False)\<rparr>"

definition run_iter :: logIterator where
  "run_iter =
     \<lparr>it_begin = 1566814753011, it_end = 1566814754000, levelFlag = 0, patterns = [],
      fileIndex = 0, reader = None,
      pending = [\<lparr>lf_file = run_file, lf_begin = 1566814753011, lf_end = 1566814754000,
                  lf_compressed = False\<rparr>],
      preLog = None\<rparr>"

lemma run_iter_sel:
  "reader run_iter = None" "preLog run_iter = None" "fileIndex run_iter = 0"
  "it_begin run_iter = 1566814753011" "it_end run_iter = 1566814754000"
  "levelFlag run_iter = 0" "patterns run_iter = []"
  "pending run_iter =
     [\<lparr>lf_file = run_file, lf_begin = 1566814753011, lf_end = 1566814754000,
       lf_compressed = False\<rparr>]"
  by (simp_all add: run_iter_def)

lemma run_parse2b: "parseLogItem sample_lib line2b = Inl InvalidLogString"
  by (simp add: parseLogItem_def sample_lib_def line2b_def)

lemma run_trim2b: "TrimSpace sample_lib line2b = line2b"
  by (simp add: sample_lib_def line2b_def ascii_space_def)

lemma run_readLine1: "readLine run_data = (Inr line1, run_rest1)"
  by (subst readLine_simple)
     (simp_all add: run_data_def run_rest1_def run_rest2_def sample_rest2_def line1_def
        line2_def line2b_def line3_def defaultBufSize_def chopCR_def)

lemma run_readLine2: "readLine run_rest1 = (Inr line2, run_rest2)"
  by (subst readLine_simple)
     (simp_all add: run_rest1_def run_rest2_def sample_rest2_def line2_def line2b_def
        line3_def defaultBufSize_def chopCR_def)

lemma run_readLine3: "readLine run_rest2 = (Inr line2b, sample_rest2)"
  by (subst readLine_simple)
     (simp_all add: run_rest2_def sample_rest2_def line2b_def line3_def defaultBufSize_def
        chopCR_def)

lemma run_forwardLines:
  "forwardLines run_rest2 = [line2b, line3]" "forwardLines run_rest1 = [line2, line2b, line3]"
  by (simp_all add: forwardLines_Inr [OF run_readLine3] forwardLines_Inr [OF run_readLine2]
      sample_forwardLines)

lemma run_lines_read:
  "lines_read run_rest1 run_rest2 = [line2]" "lines_read run_rest2 sample_rest2 = [line2b]"
  by (simp_all add: lines_read_def run_forwardLines sample_forwardLines)

lemma run_decode2b:
  "decodeLine sample_lib iter line2b =
     (case preLog iter of
        None \<Rightarrow> None
      | Some pre \<Rightarrow> Some (iter, \<lparr>Time = Time pre, Level = Level pre, Message = line2b\<rparr>))"
  using decodeLine_unparsable [of sample_lib line2b InvalidLogString iter]
  by (simp add: run_trim2b run_parse2b cong: option.case_cong)

lemma run_call1:
  "logIterator_next sample_lib None run_iter =
     (None, run_iter\<lparr>reader := Some run_rest1, preLog := Some entry1\<rparr>, Inr entry1)"
proof -
  have up: "updateToNextReader run_iter = Inr (run_iter\<lparr>reader := Some run_data\<rparr>)"
    by (simp add: updateToNextReader_def run_iter_sel run_file_def)
  have r1: "next_round sample_lib None (run_iter\<lparr>reader := Some run_data\<rparr>) =
      (None, run_iter\<lparr>reader := Some run_rest1, preLog := Some entry1\<rparr>, Some (Inr entry1))"
    by (subst next_round_read [of None None _ run_data line1 run_rest1])
       (simp_all add: run_readLine1 sample_decode1 filterItem_def run_iter_sel entry1_sel)
  have "logIterator_next sample_lib None run_iter =
      next_loop sample_lib None (run_iter\<lparr>reader := Some run_data\<rparr>)"
    by (rule next_first_call [OF _ _ up]) (simp_all add: run_iter_sel)
  also have "\<dots> = (None, run_iter\<lparr>reader := Some run_rest1, preLog := Some entry1\<rparr>, Inr entry1)"
    by (simp add: next_loop_unfold [OF r1])
  finally show ?thesis .
qed

lemma run_call2:
  "logIterator_next sample_lib None (run_iter\<lparr>reader := Some run_rest1, preLog := Some entry1\<rparr>) =
     (None, run_iter\<lparr>reader := Some run_rest2, preLog := Some entry1\<rparr>,
      Inr \<lparr>Time = Time entry1, Level = Level entry1, Message = line2\<rparr>)"
proof -
  have r: "next_round sample_lib None (run_iter\<lparr>reader := Some run_rest1, preLog := Some entry1\<rparr>) =
      (None, run_iter\<lparr>reader := Some run_rest2, preLog := Some entry1\<rparr>,
       Some (Inr \<lparr>Time = Time entry1, Level = Level entry1, Message = line2\<rparr>))"
    by (subst next_round_read [of None None _ run_rest1 line2 run_rest2])
       (simp_all add: run_readLine2 sample_decode2 filterItem_def run_iter_sel entry1_sel)
  show ?thesis
    by (subst next_with_reader [of _ run_rest1]) (simp_all add: next_loop_unfold [OF r])
qed

lemma run_call3:
  "logIterator_next sample_lib None (run_iter\<lparr>reader := Some run_rest2, preLog := Some entry1\<rparr>) =
     (None, run_iter\<lparr>reader := Some sample_rest2, preLog := Some entry1\<rparr>,
      Inr \<lparr>Time = Time entry1, Level = Level entry1, Message = line2b\<rparr>)"
proof -
  have r: "next_round sample_lib None (run_iter\<lparr>reader := Some run_rest2, preLog := Some entry1\<rparr>) =
      (None, run_iter\<lparr>reader := Some sample_rest2, preLog := Some entry1\<rparr>,
       Some (Inr \<lparr>Time = Time entry1, Level = Level entry1, Message = line2b\<rparr>))"
    by (subst next_round_read [of None None _ run_rest2 line2b sample_rest2])
       (simp_all add: run_readLine3 run_decode2b filterItem_def run_iter_sel entry1_sel)
  show ?thesis
    by (subst next_with_reader [of _ run_rest2]) (simp_all add: next_loop_unfold [OF r])
qed

theorem preLog_kept_by_continuations_witness:
  "logIterator_next sample_lib None run_iter =
     (None, run_iter\<lparr>reader := Some run_rest1, preLog := Some entry1\<rparr>, Inr entry1)
   \<and> logIterator_next sample_lib None (run_iter\<lparr>reader := Some run_rest1, preLog := Some entry1\<rparr>) =
     (None, run_iter\<lparr>reader := Some run_rest2, preLog := Some entry1\<rparr>,
      Inr \<lparr>Time = Time entry1, Level = Level entry1, Message = line2\<rparr>)
   \<and> logIterator_next sample_lib None (run_iter\<lparr>reader := Some run_rest2, preLog := Some entry1\<rparr>) =
     (None, run_iter\<lparr>reader := Some sample_rest2, preLog := Some entry1\<rparr>,
      Inr \<lparr>Time = Time entry1, Level = Level entry1, Message = line2b\<rparr>)
   \<and> lines_read run_rest1 run_rest2 = [line2] \<and> lines_read run_rest2 sample_rest2 = [line2b]
   \<and> isl (parseLogItem sample_lib (TrimSpace sample_lib line2))
   \<and> isl (parseLogItem sample_lib (TrimSpace sample_lib line2b))
   \<and> preLog (run_iter\<lparr>reader := Some run_rest2, preLog := Some entry1\<rparr>) = Some entry1
   \<and> preLog (run_iter\<lparr>reader := Some sample_rest2, preLog := Some entry1\<rparr>) = Some entry1"
  using run_call1 run_call2 run_call3
    preLog_kept_by_continuations [of "run_iter\<lparr>reader := Some run_rest1, preLog := Some entry1\<rparr>"
      run_rest1 sample_lib None None
      "run_iter\<lparr>reader := Some run_rest2, preLog := Some entry1\<rparr>"
      "Inr \<lparr>Time = Time entry1, Level = Level entry1, Message = line2\<rparr>" run_rest2]
    preLog_kept_by_continuations [of "run_iter\<lparr>reader := Some run_rest2, preLog := Some entry1\<rparr>"
      run_rest2 sample_lib None None
      "run_iter\<lparr>reader := Some sample_rest2, preLog := Some entry1\<rparr>"
      "Inr \<lparr>Time = Time entry1, Level = Level entry1, Message = line2b\<rparr>" sample_rest2]
  by (simp add: run_lines_read sample_trim run_trim2b sample_parse2 run_parse2b run_iter_sel)

section \<open>The backward scanner: chunk sizes\<close>

text \<open>
  The reads of a backward scan that starts at \<open>cursor\<close>, \<open>k\<close> rounds after the first:
  each chunk is 512 bytes doubled \<open>k\<close> times, at most 16 MiB and at most the distance to
  the start of the file, and it ends where the one before began.
\<close>

fun chunks_from :: "nat \<Rightarrow> int \<Rightarrow> (int \<times> int) list \<Rightarrow> bool" where
  "chunks_from k cursor [] = True"
| "chunks_from k cursor ((off, n) # tr) =
     (n = min (min (512 * 2 ^ k) maxReadCacheSize) cursor \<and> off = cursor - n
      \<and> chunks_from (Suc k) off tr)"

text \<open>One round of the outer loop, with the size of the chunk worked out.\<close>

lemma readLastLines_loop_step:
  assumes "0 < sz" and "0 < cursor"
    and "n = min (min (sz * 2) maxReadCacheSize) cursor"
  shows "readLastLines_loop fl c lines cursor sz tr =
       (if \<not> file_Seek fl (cursor - n) then (c, Inl (ctx_Err c), tr)
        else (case file_Read fl (cursor - n) n of
                None \<Rightarrow> (c, Inl (ctx_Err c), tr @ [(cursor - n, n)])
              | Some chars \<Rightarrow>
                  if findBoundary chars (length (chars @ lines)) 0 > 0
                  then (c, Inr (chars @ lines, findBoundary chars (length (chars @ lines)) 0),
                        tr @ [(cursor - n, n)])
                  else (case isCtxDone c of
                          (True, c') \<Rightarrow> (c', Inl (ctx_Err c'), tr @ [(cursor - n, n)])
                        | (False, c') \<Rightarrow>
                            readLastLines_loop fl c' (chars @ lines) (cursor - n) n
                              (tr @ [(cursor - n, n)]))))"
proof -
  have n: "(if cursor < (if sz * 2 > maxReadCacheSize then maxReadCacheSize else sz * 2)
                then cursor
                else (if sz * 2 > maxReadCacheSize then maxReadCacheSize else sz * 2)) = n"
    by (auto simp: assms(3) min_def)
  from assms(1,2) show ?thesis
    by (subst readLastLines_loop.simps, unfold Let_def n) simp
qed

lemma readLastLines_loop_chunks:
  assumes "0 < sz" and "cursor \<le> 0 \<or> sz = min (256 * 2 ^ k) maxReadCacheSize"
  shows "\<exists>tr'. snd (snd (readLastLines_loop fl c lines cursor sz tr)) = tr @ tr'
           \<and> chunks_from k cursor tr'"
  using assms
proof (induction "nat cursor" arbitrary: cursor sz k tr c lines rule: less_induct)
  case less
  show ?case
  proof (cases "cursor \<le> 0")
    case True
    with less.prems show ?thesis
      by (subst readLastLines_loop.simps) simp
  next
    case False
    with less.prems have sz: "sz = min (256 * 2 ^ k) maxReadCacheSize" by simp
    define n where "n = min (min (512 * 2 ^ k) maxReadCacheSize) cursor"
    have n': "n = min (min (sz * 2) maxReadCacheSize) cursor"
      by (auto simp: sz n_def maxReadCacheSize_def min_def)
    have pos: "0 < n" using False by (simp add: n_def maxReadCacheSize_def)
    have nxt: "cursor - n \<le> 0 \<or> n = min (256 * 2 ^ Suc k) maxReadCacheSize"
      by (auto simp: n_def min_def)
    have lt: "nat (cursor - n) < nat cursor"
      using pos False by simp
    from False less.prems(1) have step: "readLastLines_loop fl c lines cursor sz tr =
       (if \<not> file_Seek fl (cursor - n) then (c, Inl (ctx_Err c), tr)
        else (case file_Read fl (cursor - n) n of
                None \<Rightarrow> (c, Inl (ctx_Err c), tr @ [(cursor - n, n)])
              | Some chars \<Rightarrow>
                  if findBoundary chars (length (chars @ lines)) 0 > 0
                  then (c, Inr (chars @ lines, findBoundary chars (length (chars @ lines)) 0),
                        tr @ [(cursor - n, n)])
                  else (case isCtxDone c of
                          (True, c') \<Rightarrow> (c', Inl (ctx_Err c'), tr @ [(cursor - n, n)])
                        | (False, c') \<Rightarrow>
                            readLastLines_loop fl c' (chars @ lines) (cursor - n) n
                              (tr @ [(cursor - n, n)]))))"
      by (intro readLastLines_loop_step n') simp_all
    have ih: "\<exists>tr'. snd (snd (readLastLines_loop fl c1 lines1 (cursor - n) n (tr @ [(cursor - n, n)])))
                 = tr @ [(cursor - n, n)] @ tr' \<and> chunks_from (Suc k) (cursor - n) tr'" for c1 lines1
      using less.hyps [OF lt pos nxt, of c1 lines1 "tr @ [(cursor - n, n)]"] by simp
    have base: "\<exists>tr'. tr @ [(cursor - n, n)] = tr @ tr' \<and> chunks_from k cursor tr'"
      by (rule exI [of _ "[(cursor - n, n)]"]) (simp add: n_def)
    have base0: "\<exists>tr'. tr = tr @ tr' \<and> chunks_from k cursor tr'"
      by (rule exI [of _ "[]"]) simp
    have rec: "\<exists>tr'. snd (snd (readLastLines_loop fl c1 lines1 (cursor - n) n (tr @ [(cursor - n, n)])))
                 = tr @ tr' \<and> chunks_from k cursor tr'" for c1 lines1
    proof -
      from ih [of c1 lines1] obtain tr1 where
        "snd (snd (readLastLines_loop fl c1 lines1 (cursor - n) n (tr @ [(cursor - n, n)])))
           = tr @ (cursor - n, n) # tr1" and "chunks_from (Suc k) (cursor - n) tr1"
        by auto
      then show ?thesis by (auto simp: n_def)
    qed
    show ?thesis
      unfolding step using base base0 rec
      by (simp split: option.splits prod.splits bool.splits)
  qed
qed

text \<open>The scan reads at least once when it starts past offset 0 and the first seek
  succeeds.\<close>

lemma readLastLines_loop_reads:
  assumes "0 < cursor" and "file_Seek fl (cursor - min 512 cursor)"
  shows "snd (snd (readLastLines_loop fl c lines cursor 256 [])) \<noteq> []"
proof -
  define n where "n = min 512 cursor"
  have n': "n = min (min (256 * 2) maxReadCacheSize) cursor"
    by (simp add: n_def maxReadCacheSize_def)
  have pos: "0 < n" using assms(1) by (simp add: n_def)
  have ext: "snd (snd (readLastLines_loop fl c1 lines1 (cursor - n) n [(cursor - n, n)])) \<noteq> []"
    for c1 lines1
    using readLastLines_loop_chunks [of n "cursor - n" 1 fl c1 lines1 "[(cursor - n, n)]"] pos
    by (auto simp: n_def min_def maxReadCacheSize_def)
  from assms(2) have sk: "file_Seek fl (cursor - n)" by (simp add: n_def)
  show ?thesis
    by (subst readLastLines_loop_step [OF _ assms(1) n'])
       (simp_all add: sk ext split: option.splits prod.splits bool.splits)
qed

text \<open>
  C5. The chunks that \<open>readLastLines\<close> reads, first to last: the first is 512 bytes (the
  source doubles \<open>size\<close>, which starts at 256, before the first read), each later one
  twice the one before, none more than 16 MiB, and each cut down to the distance to
  offset 0 when that is less; each chunk ends where the one before began. When the scan
  starts past offset 0 and the first seek succeeds, there is a first read, of
  \<open>min 512 endCursor\<close> bytes.
\<close>

theorem readLastLines_chunk_sizes:
  "chunks_from 0 endCursor (readLastLines_reads c fl endCursor)
   \<and> (0 < endCursor \<and> file_Seek fl (endCursor - min 512 endCursor) \<longrightarrow>
        readLastLines_reads c fl endCursor \<noteq> []
        \<and> hd (readLastLines_reads c fl endCursor)
            = (endCursor - min 512 endCursor, min 512 endCursor))"
proof -
  from readLastLines_loop_chunks [of 256 endCursor 0 fl c "[]" "[]"]
  have ch: "chunks_from 0 endCursor (readLastLines_reads c fl endCursor)"
    by (simp add: readLastLines_reads_def maxReadCacheSize_def)
  have "readLastLines_reads c fl endCursor \<noteq> []
        \<and> hd (readLastLines_reads c fl endCursor)
            = (endCursor - min 512 endCursor, min 512 endCursor)"
    if a: "0 < endCursor" "file_Seek fl (endCursor - min 512 endCursor)"
  proof -
    from readLastLines_loop_reads [OF a]
    have ne: "readLastLines_reads c fl endCursor \<noteq> []"
      by (simp add: readLastLines_reads_def)
    then obtain off n tr where tr: "readLastLines_reads c fl endCursor = (off, n) # tr"
      by (cases "readLastLines_reads c fl endCursor") auto
    with ch have "n = min 512 endCursor \<and> off = endCursor - n"
      by (simp add: maxReadCacheSize_def min_def)
    with tr show ?thesis by simp
  qed
  with ch show ?thesis by blast
qed

text \<open>An example: a file of \<open>m\<close> bytes without a line break.\<close>

definition plain_file :: "nat \<Rightarrow> osFile" where
  "plain_file m =
     \<lparr>f_name = ''/log/plain.log'', f_data = replicate m (CHR ''a''), f_gunzip = None,
      f_seek_fails = (\<lambda>off. False), f_read_fails = (\<lambda>off. False)\<rparr>"

lemma findBoundary_no_break:
  "LF \<notin> set cs \<Longrightarrow> CR \<notin> set cs \<Longrightarrow> findBoundary cs n i = 0"
  by (induction cs n i rule: findBoundary.induct) auto

lemma plain_file_Seek: "0 \<le> off \<Longrightarrow> file_Seek (plain_file m) off"
  by (simp add: file_Seek_def plain_file_def)

lemma plain_file_Read:
  "0 \<le> off \<Longrightarrow> 0 < n \<Longrightarrow> off + n \<le> int m \<Longrightarrow>
     file_Read (plain_file m) off n = Some (replicate (nat n) (CHR ''a''))"
  by (auto simp: file_Read_def plain_file_def Let_def min_def)

lemma plain_file_round:
  assumes "0 < sz" and "0 < cursor" and "cursor \<le> int m"
    and "n = min (min (sz * 2) maxReadCacheSize) cursor"
  shows "readLastLines_loop (plain_file m) None lines cursor sz tr =
     readLastLines_loop (plain_file m) None (replicate (nat n) (CHR ''a'') @ lines)
       (cursor - n) n (tr @ [(cursor - n, n)])"
proof -
  have pos: "0 < n" and le: "n \<le> cursor"
    using assms(1,2) by (simp_all add: assms(4) maxReadCacheSize_def)
  have rd: "file_Read (plain_file m) (cursor - n) n = Some (replicate (nat n) (CHR ''a''))"
    using pos le assms(3) by (intro plain_file_Read) simp_all
  have sk: "file_Seek (plain_file m) (cursor - n)"
    using le by (intro plain_file_Seek) simp
  have fb: "findBoundary (replicate (nat n) (CHR ''a'')) k 0 = 0" for k
    by (rule findBoundary_no_break) simp_all
  show ?thesis
    by (subst readLastLines_loop_step [OF assms(1,2,4)]) (simp add: rd sk fb)
qed

lemma plain_file_start:
  "readLastLines_loop (plain_file m) None lines 0 sz tr =
     (None, (if sz \<le> 0 then Inl (Some NoProgress) else Inr (lines, 0)), tr)"
  by (subst readLastLines_loop.simps) simp

lemma plain_reads_1000:
  "readLastLines_reads None (plain_file 1000) 1000 = [(488, 512), (0, 488)]"
  unfolding readLastLines_reads_def
  by (subst plain_file_round [where n = 512], simp_all add: maxReadCacheSize_def)
     (subst plain_file_round [where n = 488], simp_all add: maxReadCacheSize_def plain_file_start)

lemma plain_reads_2000:
  "readLastLines_reads None (plain_file 2000) 2000 = [(1488, 512), (464, 1024), (0, 464)]"
  unfolding readLastLines_reads_def
  by (subst plain_file_round [where n = 512], simp_all add: maxReadCacheSize_def)
     (subst plain_file_round [where n = 1024], simp_all add: maxReadCacheSize_def,
      subst plain_file_round [where n = 464], simp_all add: maxReadCacheSize_def plain_file_start)

theorem readLastLines_chunk_sizes_witness:
  "readLastLines_reads None (plain_file 2000) 2000 = [(1488, 512), (464, 1024), (0, 464)]
   \<and> chunks_from 0 2000 [(1488, 512), (464, 1024), (0, 464)]
   \<and> file_Seek (plain_file 2000) (2000 - min 512 2000)
   \<and> hd (readLastLines_reads None (plain_file 2000) 2000) = (2000 - min 512 2000, min 512 2000)"
  using readLastLines_chunk_sizes [of 2000 None "plain_file 2000"] plain_reads_2000
  by (simp add: plain_file_Seek)

text \<open>
  The first chunk is not 256 bytes: on a file of 1000 bytes without a line break,
  \<open>readLastLines\<close> reads the last 512 bytes first, then the 488 bytes before them.
\<close>

theorem readLastLines_first_chunk_counterexample:
  "readLastLines_reads None (plain_file 1000) 1000 = [(488, 512), (0, 488)]
   \<and> snd (hd (readLastLines_reads None (plain_file 1000) 1000)) \<noteq> 256"
  by (simp add: plain_reads_1000)

section \<open>The backward scanner: a seek or a read that fails\<close>

text \<open>With a context that is never cancelled the scan keeps it and returns no error,
  whatever the seeks and the reads of the file do.\<close>

lemma readLastLines_loop_never_cancelled:
  assumes "0 < sz"
  shows "fst (readLastLines_loop fl None lines cursor sz tr) = None
     \<and> (\<forall>e. fst (snd (readLastLines_loop fl None lines cursor sz tr)) \<noteq> Inl (Some e))"
  using assms
proof (induction "nat cursor" arbitrary: cursor sz tr lines rule: less_induct)
  case less
  show ?case
  proof (cases "cursor \<le> 0")
    case True
    with less.prems have "readLastLines_loop fl None lines cursor sz tr = (None, Inr (lines, 0), tr)"
      by (subst readLastLines_loop.simps) simp
    then show ?thesis by simp
  next
    case False
    define n where "n = min (min (sz * 2) maxReadCacheSize) cursor"
    have pos: "0 < n" using False less.prems by (simp add: n_def maxReadCacheSize_def)
    have lt: "nat (cursor - n) < nat cursor"
      using pos False by simp
    from False have c: "0 < cursor" by simp
    note ih = less.hyps [OF lt pos]
    show ?thesis
      unfolding readLastLines_loop_step [OF less.prems c n_def]
      by (simp add: ih split: option.splits)
  qed
qed

lemma readLastLines_never_cancelled:
  "\<exists>lines n. readLastLines None fl endCursor = (None, lines, n, None)"
proof -
  from readLastLines_loop_never_cancelled [of 256 fl "[]" endCursor "[]"]
  obtain r tr' where r: "readLastLines_loop fl None [] endCursor 256 [] = (None, r, tr')"
    and ne: "\<forall>e. r \<noteq> Inl (Some e)"
    by (cases "readLastLines_loop fl None [] endCursor 256 []") auto
  show ?thesis
  proof (cases r)
    case (Inl e)
    with ne have "e = None" by (cases e) auto
    with Inl r show ?thesis by (simp add: readLastLines_def)
  next
    case (Inr p)
    with r show ?thesis by (cases p) (simp add: readLastLines_def Let_def)
  qed
qed

text \<open>A seek or a read that fails in the first round.\<close>

lemma readLastLines_first_round_fails:
  assumes "0 < endCursor" and "ctx_Err c = None"
    and "\<not> file_Seek fl (endCursor - min 512 endCursor)
       \<or> file_Read fl (endCursor - min 512 endCursor) (min 512 endCursor) = None"
  shows "readLastLines c fl endCursor = (c, [], 0, None)"
proof -
  have n: "min 512 endCursor = min (min (256 * 2) maxReadCacheSize) endCursor"
    by (simp add: maxReadCacheSize_def)
  have "\<exists>tr. readLastLines_loop fl c [] endCursor 256 [] = (c, Inl None, tr)"
    using assms(2,3)
    by (subst readLastLines_loop_step [OF _ assms(1) n]) auto
  then show ?thesis
    by (auto simp: readLastLines_def)
qed

text \<open>The same file with seeks and reads that do not fail.\<close>

definition io_healthy :: "osFile \<Rightarrow> osFile" where
  "io_healthy fl = fl\<lparr>f_seek_fails := (\<lambda>off. False), f_read_fails := (\<lambda>off. False)\<rparr>"

lemma io_healthy_Seek: "file_Seek fl off \<Longrightarrow> file_Seek (io_healthy fl) off"
  by (simp add: file_Seek_def io_healthy_def)

lemma io_healthy_Read:
  "file_Read fl off n = Some chars \<Longrightarrow> file_Read (io_healthy fl) off n = Some chars"
  by (auto simp: file_Read_def io_healthy_def Let_def split: if_splits)

text \<open>A seek or a read that fails in whatever round has one effect only: the scan ends
  with \<open>return nil, 0, ctx.Err()\<close>.\<close>

lemma readLastLines_loop_io:
  assumes "0 < sz"
  shows "fst (snd (readLastLines_loop fl None lines cursor sz tr)) = Inl None
     \<or> fst (snd (readLastLines_loop fl None lines cursor sz tr))
        = fst (snd (readLastLines_loop (io_healthy fl) None lines cursor sz tr))"
  using assms
proof (induction "nat cursor" arbitrary: cursor sz tr lines rule: less_induct)
  case less
  show ?case
  proof (cases "cursor \<le> 0")
    case True
    with less.prems have "readLastLines_loop f None lines cursor sz tr = (None, Inr (lines, 0), tr)"
      for f
      by (subst readLastLines_loop.simps) simp
    then show ?thesis by simp
  next
    case False
    define n where "n = min (min (sz * 2) maxReadCacheSize) cursor"
    have pos: "0 < n" using False less.prems by (simp add: n_def maxReadCacheSize_def)
    have lt: "nat (cursor - n) < nat cursor"
      using pos False by simp
    from False have c: "0 < cursor" by simp
    note ih = less.hyps [OF lt pos]
    show ?thesis
    proof (cases "file_Seek fl (cursor - n)")
      case False
      then show ?thesis
        unfolding readLastLines_loop_step [OF less.prems c n_def, of fl] by simp
    next
      case sk: True
      show ?thesis
      proof (cases "file_Read fl (cursor - n) n")
        case None
        with sk show ?thesis
          unfolding readLastLines_loop_step [OF less.prems c n_def, of fl] by simp
      next
        case (Some chars)
        from ih [of "chars @ lines" "tr @ [(cursor - n, n)]"] show ?thesis
          unfolding readLastLines_loop_step [OF less.prems c n_def]
          by (simp add: sk Some io_healthy_Seek [OF sk] io_healthy_Read [OF Some])
      qed
    qed
  qed
qed

lemma readLastLines_io:
  "readLastLines None fl endCursor = (None, [], 0, None)
   \<or> readLastLines None fl endCursor = readLastLines None (io_healthy fl) endCursor"
proof -
  have a: "fst (readLastLines_loop f None [] endCursor 256 []) = None" for f
    using readLastLines_loop_never_cancelled [of 256 f "[]" endCursor "[]"] by simp
  have "fst (snd (readLastLines_loop fl None [] endCursor 256 [])) = Inl None
     \<or> fst (snd (readLastLines_loop fl None [] endCursor 256 []))
        = fst (snd (readLastLines_loop (io_healthy fl) None [] endCursor 256 []))"
    by (rule readLastLines_loop_io) simp
  then show ?thesis
  proof
    assume "fst (snd (readLastLines_loop fl None [] endCursor 256 [])) = Inl None"
    with a [of fl] have "readLastLines None fl endCursor = (None, [], 0, None)"
      by (cases "readLastLines_loop fl None [] endCursor 256 []") (simp add: readLastLines_def)
    then show ?thesis ..
  next
    assume "fst (snd (readLastLines_loop fl None [] endCursor 256 []))
        = fst (snd (readLastLines_loop (io_healthy fl) None [] endCursor 256 []))"
    with a [of fl] a [of "io_healthy fl"]
    have "readLastLines None fl endCursor = readLastLines None (io_healthy fl) endCursor"
      by (cases "readLastLines_loop fl None [] endCursor 256 []";
          cases "readLastLines_loop (io_healthy fl) None [] endCursor 256 []")
         (simp add: readLastLines_def)
    then show ?thesis ..
  qed
qed

section \<open>The resolver: a file whose tail cannot be read\<close>

lemma readLastValidLog_first_round_fails:
  assumes "0 < file_Size fl" and "ctx_Err c = None"
    and "\<not> file_Seek fl (file_Size fl - min 512 (file_Size fl))
       \<or> file_Read fl (file_Size fl - min 512 (file_Size fl)) (min 512 (file_Size fl)) = None"
  shows "readLastValidLog L c fl tryLines = (c, Inl NotValidLogFile)"
  unfolding readLastValidLog_def
  by (subst readLastValidLog_loop.simps)
     (simp add: readLastLines_first_round_fails [OF assms])

text \<open>With a context that is never cancelled, \<open>readLastValidLog\<close> gives an entry or
  "not a valid log file", whatever the seeks and the reads of the file do.\<close>

lemma readLastValidLog_loop_never_cancelled:
  "fst (readLastValidLog_loop L None fl tryLines tried endCursor) = None
   \<and> (\<forall>e. snd (readLastValidLog_loop L None fl tryLines tried endCursor) = Inl e
          \<longrightarrow> e = NotValidLogFile)"
proof (induction "nat (tryLines - tried)" arbitrary: tried endCursor rule: less_induct)
  case less
  obtain lines n where rl: "readLastLines None fl endCursor = (None, lines, n, None)"
    using readLastLines_never_cancelled [of fl endCursor] by auto
  show ?case
  proof (cases "n = 0 \<or> firstParsed L (rev lines) \<noteq> None \<or> tryLines \<le> tried + int (length lines)")
    case True
    then show ?thesis
      by (subst (1 2) readLastValidLog_loop.simps) (auto simp: rl Let_def split: option.splits)
  next
    case False
    then have "lines \<noteq> []" using readLastLines_lines_not_Nil [OF rl] by simp
    with False have lt: "nat (tryLines - (tried + int (length lines))) < nat (tryLines - tried)"
      by (cases lines) auto
    from False have step: "readLastValidLog_loop L None fl tryLines tried endCursor
        = readLastValidLog_loop L None fl tryLines (tried + int (length lines)) (endCursor - n)"
      by (subst readLastValidLog_loop.simps) (auto simp: rl Let_def split: option.splits)
    from less.hyps [OF lt, of "endCursor - n"] show ?thesis
      unfolding step .
  qed
qed

lemma readFirstValidLog_loop_never_cancelled:
  "fst (readFirstValidLog_loop L None r tryLines tried) = None"
proof (induction "nat (tryLines - tried)" arbitrary: tried r rule: less_induct)
  case less
  show ?case
  proof (cases "readLine r")
    case (Pair res r')
    show ?thesis
    proof (cases "case res of Inl e \<Rightarrow> False
                  | Inr line \<Rightarrow> isl (parseLogItem L line) \<and> tried + 1 < tryLines")
      case True
      then obtain line where l: "res = Inr line" "isl (parseLogItem L line)" "tried + 1 < tryLines"
        by (cases res) auto
      then have lt: "nat (tryLines - (tried + 1)) < nat (tryLines - tried)" by simp
      from l Pair have step: "readFirstValidLog_loop L None r tryLines tried
          = readFirstValidLog_loop L None r' tryLines (tried + 1)"
        by (subst readFirstValidLog_loop.simps) (auto simp: Let_def split: sum.splits)
      from less.hyps [OF lt, of r'] show ?thesis unfolding step .
    next
      case False
      with Pair show ?thesis
        by (subst readFirstValidLog_loop.simps)
           (auto simp: Let_def split: sum.splits)
    qed
  qed
qed

text \<open>What \<open>walkFn\<close> does with a plain file whose first entry parses and whose tail
  cannot be read: the handle goes on \<open>skipFiles\<close>, and \<open>walkFn\<close> returns nil.\<close>

lemma walkFn_unreadable_tail:
  assumes "\<not> de_isDir info" and "HasPrefix (de_path info) filePrefix"
    and "\<not> HasSuffix (de_path info) compressSuffix" and "HasSuffix (de_path info) ext"
    and "de_open info = Some fl"
    and "readFirstValidLog L None (f_data fl) 10 = (c1, Inr firstItem)"
    and "\<not> file_Seek fl (file_Size fl - min 512 (file_Size fl))
       \<or> file_Read fl (file_Size fl - min 512 (file_Size fl)) (min 512 (file_Size fl)) = None"
  shows "walkFn L filePrefix ext beginTime endTime None st info =
     (None, st\<lparr>ws_err := None, ws_skipFiles := ws_skipFiles st @ [fl]\<rparr>, None)"
proof -
  from assms(6) have c1: "c1 = None"
    using readFirstValidLog_loop_never_cancelled [of L "f_data fl" 10 0]
    by (simp add: readFirstValidLog_def)
  have "f_data fl \<noteq> []"
  proof
    assume "f_data fl = []"
    with assms(6) show False
      by (simp add: readFirstValidLog_def readFirstValidLog_loop.simps [of L None "[]"]
          readLine_Nil)
  qed
  then have "0 < file_Size fl" by (simp add: file_Size_def)
  then have "readLastValidLog L None fl 10 = (None, Inl NotValidLogFile)"
    using assms(7) by (intro readLastValidLog_first_round_fails) simp_all
  then have pe: "probeEnd L None fl False = (None, None)"
    by (simp add: probeEnd_def)
  have "probeFile L filePrefix ext None (ws_err st) info = (None, None, Skipped fl)"
    using assms(1-5) by (simp add: probeFile_def Let_def assms(6) c1 pe)
  then show ?thesis
    by (simp add: walkFn_def)
qed

text \<open>
  C9. A seek or a read that fails in \<open>readLastLines\<close> while the context is not
  cancelled gives \<open>(nil, 0, nil)\<close>: no lines, zero bytes, no error. With a context that
  is never cancelled, \<open>readLastLines\<close> returns no error whatever the seeks and reads do,
  and its result is \<open>(nil, 0, nil)\<close> or what it is for the same file with seeks and reads
  that succeed. \<open>readLastValidLog\<close> then leaves its loop as if it had reached the start
  of the file and returns "not a valid log file"; \<open>walkFn\<close> puts the handle on
  \<open>skipFiles\<close> and returns nil, so the walk goes on with the next entry, and
  \<open>resolveFiles\<close> on a directory with that one file returns no file and no error, the
  handle being among those it closes.
\<close>

theorem io_failure_skips_file:
  "(\<exists>lines n. readLastLines None fl endCursor = (None, lines, n, None))
   \<and> (readLastLines None fl endCursor = (None, [], 0, None)
      \<or> readLastLines None fl endCursor = readLastLines None (io_healthy fl) endCursor)
   \<and> (0 < endCursor \<and> ctx_Err c = None
       \<and> (\<not> file_Seek fl (endCursor - min 512 endCursor)
          \<or> file_Read fl (endCursor - min 512 endCursor) (min 512 endCursor) = None)
      \<longrightarrow> readLastLines c fl endCursor = (c, [], 0, None))
   \<and> (0 < file_Size fl \<and> ctx_Err c = None
       \<and> (\<not> file_Seek fl (file_Size fl - min 512 (file_Size fl))
          \<or> file_Read fl (file_Size fl - min 512 (file_Size fl)) (min 512 (file_Size fl)) = None)
      \<longrightarrow> readLastValidLog L c fl tryLines = (c, Inl NotValidLogFile))
   \<and> (logFilePath \<noteq> [] \<and> \<not> de_isDir info
       \<and> HasPrefix (de_path info)
            (take (length logFilePath - length (Ext logFilePath)) logFilePath)
       \<and> \<not> HasSuffix (de_path info) compressSuffix
       \<and> HasSuffix (de_path info) (Ext logFilePath)
       \<and> de_open info = Some fl
       \<and> readFirstValidLog L None (f_data fl) 10 = (None, Inr firstItem)
       \<and> (\<not> file_Seek fl (file_Size fl - min 512 (file_Size fl))
          \<or> file_Read fl (file_Size fl - min 512 (file_Size fl)) (min 512 (file_Size fl)) = None)
      \<longrightarrow> walk L (take (length logFilePath - length (Ext logFilePath)) logFilePath)
             (Ext logFilePath) beginTime endTime None st (info # infos)
           = walk L (take (length logFilePath - length (Ext logFilePath)) logFilePath)
               (Ext logFilePath) beginTime endTime None
               (st\<lparr>ws_err := None, ws_skipFiles := ws_skipFiles st @ [fl]\<rparr>) infos
         \<and> resolveFiles L None (Inr [info]) logFilePath beginTime endTime
           = (None, [fl], [], None))"
proof (intro conjI)
  show "\<exists>lines n. readLastLines None fl endCursor = (None, lines, n, None)"
    by (rule readLastLines_never_cancelled)
  show "readLastLines None fl endCursor = (None, [], 0, None)
      \<or> readLastLines None fl endCursor = readLastLines None (io_healthy fl) endCursor"
    by (rule readLastLines_io)
  show "0 < endCursor \<and> ctx_Err c = None
       \<and> (\<not> file_Seek fl (endCursor - min 512 endCursor)
          \<or> file_Read fl (endCursor - min 512 endCursor) (min 512 endCursor) = None)
      \<longrightarrow> readLastLines c fl endCursor = (c, [], 0, None)"
    using readLastLines_first_round_fails [of endCursor c fl] by blast
  show "0 < file_Size fl \<and> ctx_Err c = None
       \<and> (\<not> file_Seek fl (file_Size fl - min 512 (file_Size fl))
          \<or> file_Read fl (file_Size fl - min 512 (file_Size fl)) (min 512 (file_Size fl)) = None)
      \<longrightarrow> readLastValidLog L c fl tryLines = (c, Inl NotValidLogFile)"
    using readLastValidLog_first_round_fails [of fl c L tryLines] by blast
  let ?ext = "Ext logFilePath"
  let ?pre = "take (length logFilePath - length ?ext) logFilePath"
  show "logFilePath \<noteq> [] \<and> \<not> de_isDir info
       \<and> HasPrefix (de_path info) ?pre
       \<and> \<not> HasSuffix (de_path info) compressSuffix
       \<and> HasSuffix (de_path info) ?ext
       \<and> de_open info = Some fl
       \<and> readFirstValidLog L None (f_data fl) 10 = (None, Inr firstItem)
       \<and> (\<not> file_Seek fl (file_Size fl - min 512 (file_Size fl))
          \<or> file_Read fl (file_Size fl - min 512 (file_Size fl)) (min 512 (file_Size fl)) = None)
      \<longrightarrow> walk L ?pre ?ext beginTime endTime None st (info # infos)
           = walk L ?pre ?ext beginTime endTime None
               (st\<lparr>ws_err := None, ws_skipFiles := ws_skipFiles st @ [fl]\<rparr>) infos
         \<and> resolveFiles L None (Inr [info]) logFilePath beginTime endTime
           = (None, [fl], [], None)"
  proof (rule impI)
    assume a: "logFilePath \<noteq> [] \<and> \<not> de_isDir info
       \<and> HasPrefix (de_path info) ?pre
       \<and> \<not> HasSuffix (de_path info) compressSuffix
       \<and> HasSuffix (de_path info) ?ext
       \<and> de_open info = Some fl
       \<and> readFirstValidLog L None (f_data fl) 10 = (None, Inr firstItem)
       \<and> (\<not> file_Seek fl (file_Size fl - min 512 (file_Size fl))
          \<or> file_Read fl (file_Size fl - min 512 (file_Size fl)) (min 512 (file_Size fl)) = None)"
    have w: "walkFn L ?pre ?ext beginTime endTime None st0 info =
       (None, st0\<lparr>ws_err := None, ws_skipFiles := ws_skipFiles st0 @ [fl]\<rparr>, None)" for st0
      using a by (intro walkFn_unreadable_tail [where ?c1.0 = None and firstItem = firstItem]) simp_all
    have p: "prune_loop beginTime [] 0 0 sk = (0, sk)" for sk
      by (subst prune_loop.simps) simp
    from a have ne: "logFilePath \<noteq> []" by simp
    show "walk L ?pre ?ext beginTime endTime None st (info # infos)
           = walk L ?pre ?ext beginTime endTime None
               (st\<lparr>ws_err := None, ws_skipFiles := ws_skipFiles st @ [fl]\<rparr>) infos
         \<and> resolveFiles L None (Inr [info]) logFilePath beginTime endTime
           = (None, [fl], [], None)"
      by (simp add: w resolveFiles_def Let_def ne p)
  qed
qed

text \<open>An example: the example file on a handle that cannot seek.\<close>

definition unseekable_file :: osFile where
  "unseekable_file = sample_file\<lparr>f_seek_fails := (\<lambda>off. True)\<rparr>"

definition unseekable_entry :: dirEntry where
  "unseekable_entry =
     \<lparr>de_path = ''/log/tidb.log'', de_isDir = False, de_open = Some unseekable_file\<rparr>"

lemma unseekable_file_sel:
  "f_data unseekable_file = sample_data" "file_Size unseekable_file = 137"
  "file_Seek unseekable_file off = False"
  by (simp_all add: unseekable_file_def sample_file_def file_Size_def file_Seek_def
      sample_data_def sample_rest1_def sample_rest2_def sample_lengths)

lemma sample_first_entry:
  "readFirstValidLog sample_lib None sample_data 10 = (None, Inr entry1)"
  unfolding readFirstValidLog_def
  by (subst readFirstValidLog_loop.simps) (simp add: sample_readLine1 sample_parse1)

lemma sample_path:
  "Ext ''/log/tidb.log'' = ''.log''"
  "HasPrefix ''/log/tidb.log'' ''/log/tidb''"
  "\<not> HasSuffix ''/log/tidb.log'' compressSuffix"
  "HasSuffix ''/log/tidb.log'' ''.log''"
  by (simp_all add: Ext_def HasPrefix_def HasSuffix_def compressSuffix_def)

theorem io_failure_skips_file_witness:
  "file_Size unseekable_file = 137
   \<and> file_Seek unseekable_file (137 - min 512 137) = False
   \<and> readFirstValidLog sample_lib None (f_data unseekable_file) 10 = (None, Inr entry1)
   \<and> readLastLines None unseekable_file 137 = (None, [], 0, None)
   \<and> readLastValidLog sample_lib None unseekable_file 10 = (None, Inl NotValidLogFile)
   \<and> resolveFiles sample_lib None (Inr [unseekable_entry]) ''/log/tidb.log''
        1566814753011 1566814754000
      = (None, [unseekable_file], [], None)"
  using io_failure_skips_file [where fl = unseekable_file and endCursor = 137 and c = None
      and L = sample_lib and tryLines = 10 and logFilePath = "''/log/tidb.log''"
      and info = unseekable_entry and firstItem = entry1
      and beginTime = 1566814753011 and endTime = 1566814754000
      and st = "\<lparr>ws_logFiles = [], ws_skipFiles = [], ws_err = None\<rparr>" and infos = "[]"]
  by (simp add: unseekable_file_sel sample_first_entry sample_path unseekable_entry_def)

end
